theory Spec2Isabelle
  imports Main "HOL-Library.Word" "HOL-Library.Multiset"
begin

section \<open>The hangman server and client (src/hangman)\<close>

text \<open>
  The development embeds the game logic of \<^verbatim>\<open>hangman-server.c\<close>, one pass of the
  request/response exchange of \<^verbatim>\<open>hangman-client.c\<close> and the word loader of
  \<^verbatim>\<open>wordlist.c\<close>.

  Conventions of the embedding:
  \<^item> a C string is the list of its characters before the terminating NUL; a fixed
    \<^verbatim>\<open>char[N]\<close> array is a list of \<open>N\<close> characters, terminator and padding included;
  \<^item> a linked list of \<^verbatim>\<open>struct client\<close> is the list of its nodes, head first; a linked
    \<^verbatim>\<open>struct wordlist\<close> is the list of its values together with a flag that tells
    whether the chain ends in NULL. \<^verbatim>\<open>wordlist_read\<close> and \<^verbatim>\<open>wordlist_copy\<close> never store
    anything into the \<^verbatim>\<open>next\<close> pointer of a last node, which keeps what \<^verbatim>\<open>malloc\<close>
    returned: NULL or not, as the environment decides;
  \<^item> \<^verbatim>\<open>unsigned int\<close> is a 32-bit word, \<^verbatim>\<open>size_t\<close> counters that are bounded by the
    number of allocated list nodes are natural numbers;
  \<^item> what the environment decides is a parameter: the value returned by \<^verbatim>\<open>rand()\<close>,
    the contents of memory returned by \<^verbatim>\<open>malloc\<close>, the uninitialised line buffer;
  \<^item> a memory access outside an object, a failed \<^verbatim>\<open>assert\<close> and a fatal
    \<^verbatim>\<open>bail_out\<close> are error values, and they end the run that is described. After an
    access outside an object the C standard defines nothing: the process may be killed,
    or run on with other fields overwritten. Nothing is stated about what follows, and
    the theorems say where such an access happens;
  \<^item> allocation and semaphore system calls are taken to succeed.
\<close>

subsection \<open>hangman-common.h\<close>

definition MAX_ERROR :: "32 word" where
  "MAX_ERROR = 8"

definition MAX_WORD_LENGTH :: nat where
  "MAX_WORD_LENGTH = 80"

datatype game_state = game_new | game_open | game_impossible | game_lost | game_won

text \<open>The record in shared memory. Its fields carry the prefix \<open>shm_\<close> where the
  server's structures use the same field name.\<close>

record shm =
  shm_errors :: "32 word"
  shm_clientno :: int
  shm_status :: game_state
  tried_char :: char
  shm_word :: string
  terminate :: bool

datatype sem = srv_sem | clt_sem | ret_sem

subsection \<open>C strings and buffers\<close>

abbreviation NUL :: char where
  "NUL \<equiv> CHR 0x00"

definition cstr :: "string \<Rightarrow> string" where
  \<comment> \<open>the C string held by a buffer: the characters before the first NUL\<close>
  "cstr buf = takeWhile (\<lambda>c. c \<noteq> NUL) buf"

definition strncpy :: "string \<Rightarrow> nat \<Rightarrow> string" where
  \<comment> \<open>the \<open>n\<close> bytes \<^verbatim>\<open>strncpy(dst, src, n)\<close> writes: at most \<open>n\<close> characters of the
      source string, then NUL padding (no terminator when the source has \<open>n\<close> or more)\<close>
  "strncpy src n = take n src @ replicate (n - length src) NUL"

datatype error =
    InvalidPointer      \<comment> \<open>dereference of NULL or of an uninitialised pointer\<close>
  | AssertionFailed     \<comment> \<open>\<^verbatim>\<open>assert(curr->next != NULL)\<close>\<close>
  | BufferOverflow      \<comment> \<open>access outside a fixed-size array\<close>
  | ClientNotFound      \<comment> \<open>\<^verbatim>\<open>bail_out\<close>: no session with the requested number\<close>

subsection \<open>hangman-server.c: data\<close>

record game =
  secret :: "string option"    \<comment> \<open>\<open>None\<close>: the pointer does not point to a string\<close>
  obscured :: string           \<comment> \<open>\<^verbatim>\<open>char obscured[MAX_WORD_LENGTH]\<close>\<close>
  status :: game_state
  errors :: "32 word"

text \<open>\<open>words\<close> holds the values of the nodes of the session's private list, in order;
  \<open>words_ended\<close> tells whether the chain ends in NULL, that is, whether the \<^verbatim>\<open>next\<close>
  pointer of its last node (the pointer \<^verbatim>\<open>words\<close> itself when no node is left) is NULL.\<close>

record client =
  clientno :: int
  words :: "string list"
  words_ended :: bool
  current_game :: game
  gamecnt :: nat

text \<open>The globals of the server: the master word list, its length as counted by the
  loader, the list of sessions and the counter the session numbers come from.\<close>

record server =
  srv_words :: "string list"
  srv_words_ended :: bool
  wordcnt :: nat
  clients :: "client list"
  client_count :: "32 word"

subsection \<open>new\_game\<close>

text \<open>The walk to node \<open>pos\<close> and its removal from the list. The loop dereferences
  \<^verbatim>\<open>curr\<close> at every step and asserts that a successor exists; at the last node the
  assertion fails when the chain ends in NULL, and otherwise the walk goes on to
  whatever the uninitialised pointer holds. The node removed hands its \<^verbatim>\<open>next\<close> pointer
  to its predecessor (or to \<^verbatim>\<open>c->words\<close>), so the chain ends as it did before.\<close>

fun unlink :: "bool \<Rightarrow> nat \<Rightarrow> string list \<Rightarrow> error + (string \<times> string list)" where
  "unlink ended pos [] = Inl InvalidPointer"
| "unlink ended 0 (w # ws) = Inr (w, ws)"
| "unlink ended (Suc i) [w] = Inl (if ended then AssertionFailed else InvalidPointer)"
| "unlink ended (Suc i) (w # ws) =
     (case unlink ended i ws of Inl e \<Rightarrow> Inl e | Inr (v, rest) \<Rightarrow> Inr (v, w # rest))"

text \<open>The loop that fills the obscured buffer, from index \<open>i\<close>.\<close>

fun obscure :: "string \<Rightarrow> nat \<Rightarrow> string \<Rightarrow> string" where
  "obscure [] i obs = obs"
| "obscure (s # ss) i obs =
     obscure ss (Suc i) (obs[i := (if s = CHR '' '' then CHR '' '' else CHR ''_'')])"

text \<open>\<open>new_game\<close> reads the global \<^verbatim>\<open>wordcnt\<close> and calls \<^verbatim>\<open>rand()\<close>; both are
  parameters. The writes \<^verbatim>\<open>obscured[i]\<close> for \<open>i < length\<close> and
  \<^verbatim>\<open>obscured[length+1]\<close> stay inside the array only when \<open>length + 1 < MAX_WORD_LENGTH\<close>.\<close>

definition new_game :: "nat \<Rightarrow> nat \<Rightarrow> client \<Rightarrow> error + client" where
  "new_game wcnt rnd c =
     (if wcnt \<le> gamecnt c then
        Inr (c\<lparr>current_game := (current_game c)\<lparr>status := game_impossible\<rparr>\<rparr>)
      else
        let pos = rnd mod (wcnt - gamecnt c) in
        case unlink (words_ended c) pos (words c) of
          Inl e \<Rightarrow> Inl e
        | Inr (v, rest) \<Rightarrow>
            if MAX_WORD_LENGTH \<le> length v + 1 then Inl BufferOverflow
            else Inr (c\<lparr>words := rest,
                        gamecnt := gamecnt c + 1,
                        current_game :=
                          \<lparr>secret = Some v,
                           obscured = (obscure v 0 (replicate MAX_WORD_LENGTH NUL))
                                        [length v + 1 := NUL],
                           status = game_open,
                           errors = 0\<rparr>\<rparr>))"

subsection \<open>calculate\_results\<close>

text \<open>The scanning loop over the secret, from index \<open>i\<close>, on the triple of the
  obscured buffer and the flags \<^verbatim>\<open>error\<close> and \<^verbatim>\<open>won\<close>.\<close>

fun scan :: "char \<Rightarrow> string \<Rightarrow> nat \<Rightarrow> string \<times> bool \<times> bool \<Rightarrow> string \<times> bool \<times> bool" where
  "scan try [] i st = st"
| "scan try (s # ss) i (obs, err, won) =
     (let obs' = (if s = try then obs[i := try] else obs);
          err' = (if s = try then False else err);
          won' = (won \<and> obs' ! i \<noteq> CHR ''_'')
      in scan try ss (Suc i) (obs', err', won'))"

definition calculate_results :: "client \<Rightarrow> char \<Rightarrow> error + client" where
  "calculate_results c try =
     (let g = current_game c in
      case secret g of
        None \<Rightarrow> Inl InvalidPointer
      | Some sec \<Rightarrow>
          if MAX_WORD_LENGTH < length sec then Inl BufferOverflow
          else
            let (obs, err, won) = scan try sec 0 (obscured g, True, True) in
            if won then Inr (c\<lparr>current_game := g\<lparr>obscured := obs, status := game_won\<rparr>\<rparr>)
            else if \<not> err then Inr (c\<lparr>current_game := g\<lparr>obscured := obs\<rparr>\<rparr>)
            else
              let e = errors g + 1 in
              if MAX_ERROR < e then
                Inr (c\<lparr>current_game :=
                       g\<lparr>obscured := strncpy sec MAX_WORD_LENGTH,
                         status := game_lost, errors := e\<rparr>\<rparr>)
              else Inr (c\<lparr>current_game := g\<lparr>obscured := obs, errors := e\<rparr>\<rparr>))"

subsection \<open>The dispatch loop of main\<close>

text \<open>What the environment supplies to one pass of the loop: the value \<^verbatim>\<open>rand()\<close>
  returns, the contents of the \<^verbatim>\<open>struct game\<close> inside a freshly allocated,
  uninitialised \<^verbatim>\<open>struct client\<close>, and whether the \<^verbatim>\<open>next\<close> field of a freshly
  allocated, uninitialised \<^verbatim>\<open>struct wordlist\<close> happens to be NULL.\<close>

record env =
  rand :: nat
  malloc_game :: game
  malloc_next_null :: bool

text \<open>\<open>wordlist_copy\<close> (wordlist.c, lines 33--48) copies node by node, on a list given by
  its values and the flag of its end; \<open>fresh\<close> is \<open>malloc_next_null\<close>. A NULL argument is
  copied to NULL. The \<^verbatim>\<open>next\<close> pointer of a copied node is assigned only when the
  original has a successor (lines 43--45): the copy of the last node keeps the pointer
  \<^verbatim>\<open>malloc\<close> returned. Where the original does not end in NULL, the recursion follows
  its uninitialised pointer.\<close>

fun wordlist_copy :: "bool \<Rightarrow> bool \<Rightarrow> string list \<Rightarrow> error + (string list \<times> bool)" where
  "wordlist_copy fresh ended [] = (if ended then Inr ([], True) else Inl InvalidPointer)"
| "wordlist_copy fresh ended (v # l) =
     (if l = [] \<and> ended then Inr ([v], fresh)
      else
        (case wordlist_copy fresh ended l of
           Inl x \<Rightarrow> Inl x
         | Inr (vs, t) \<Rightarrow> Inr (v # vs, t)))"

text \<open>\<open>wordlist_free\<close> (wordlist.c, lines 22--31) walks the chain until it finds NULL and
  frees every node: \<open>None\<close> when it returns. On a chain that does not end in NULL it
  reads and frees through the uninitialised pointer.\<close>

fun wordlist_free :: "bool \<Rightarrow> string list \<Rightarrow> error option" where
  "wordlist_free ended [] = (if ended then None else Some InvalidPointer)"
| "wordlist_free ended (v # l) = wordlist_free ended l"

text \<open>The search loop for the session of a request: the position of the first node
  with the requested number (\<^verbatim>\<open>cur\<close>; \<^verbatim>\<open>pre\<close> is the node before it).\<close>

fun find_client :: "int \<Rightarrow> client list \<Rightarrow> nat option" where
  "find_client no [] = None"
| "find_client no (c # cs) =
     (if clientno c = no then Some 0 else map_option Suc (find_client no cs))"

text \<open>Lines 379--396: a request with number \<open>-1\<close> creates a session at the head of
  the list, with a copy of the master list; any other number is looked up. The
  conversion of the unsigned counter to \<^verbatim>\<open>int\<close> is the two's complement reading.\<close>

definition resolve :: "env \<Rightarrow> server \<Rightarrow> shm \<Rightarrow> error + (server \<times> nat)" where
  "resolve e s m =
     (if shm_clientno m = - 1 then
        (case wordlist_copy (malloc_next_null e) (srv_words_ended s) (srv_words s) of
           Inl x \<Rightarrow> Inl x
         | Inr (ws, t) \<Rightarrow>
             Inr (s\<lparr>clients :=
                      \<lparr>clientno = sint (client_count s),
                       words = ws,
                       words_ended = t,
                       current_game = malloc_game e,
                       gamecnt = 0\<rparr> # clients s,
                    client_count := client_count s + 1\<rparr>, 0))
      else
        (case find_client (shm_clientno m) (clients s) of
           None \<Rightarrow> Inl ClientNotFound
         | Some i \<Rightarrow> Inr (s, i)))"

text \<open>The server's \<open>free_resources\<close> (lines 149--186) with the shared record mapped: the
  terminate flag is set, then the loop over the sessions frees each session's word list
  and posts the gate once for it. The posts made, and the error if \<open>wordlist_free\<close> does
  not return for a session.\<close>

fun release_clients :: "client list \<Rightarrow> sem list \<times> error option" where
  "release_clients [] = ([], None)"
| "release_clients (c # cs) =
     (case wordlist_free (words_ended c) (words c) of
        Some x \<Rightarrow> ([], Some x)
      | None \<Rightarrow> (case release_clients cs of (ps, r) \<Rightarrow> (clt_sem # ps, r)))"

definition free_resources :: "server \<Rightarrow> shm \<Rightarrow> shm \<times> sem list \<times> error option" where
  "free_resources s m =
     (case release_clients (clients s) of (ps, r) \<Rightarrow> (m\<lparr>terminate := True\<rparr>, ps, r))"

text \<open>What one pass of the loop comes to. \<open>Served\<close>: the pass reaches the end of the loop
  body, with the new server state, the new contents of the shared record and the
  semaphore it has posted. \<open>Stopped\<close>: the pass ends the run, by \<open>bail_out\<close> or by an
  access outside an object, with the shared record and the posts made up to there.\<close>

datatype pass =
    Served server shm sem
  | Stopped error shm "sem list"

text \<open>\<open>bail_out\<close> (lines 130--147) runs \<open>free_resources\<close> and exits.\<close>

definition bail_out :: "server \<Rightarrow> shm \<Rightarrow> error \<Rightarrow> pass" where
  "bail_out s m x =
     (case free_resources s m of
        (m', ps, r) \<Rightarrow> Stopped (case r of None \<Rightarrow> x | Some y \<Rightarrow> y) m' ps)"

text \<open>Lines 379--431, one pass of the loop after \<^verbatim>\<open>sem_wait(srv_sem)\<close> has returned.
  A number that is not found is fatal (line 395). In the terminate branch the session
  is taken out of the list, its word list is freed (line 406), and only then the flag
  is cleared and the gate posted. \<^verbatim>\<open>pre\<close> is used only when \<^verbatim>\<open>cur\<close> is not the head, and
  then the search loop of the same pass has set it to the predecessor of \<^verbatim>\<open>cur\<close>: the
  node at the position found is removed.\<close>

definition dispatch :: "env \<Rightarrow> server \<Rightarrow> shm \<Rightarrow> pass" where
  "dispatch e s m =
     (case resolve e s m of
        Inl x \<Rightarrow> (if x = ClientNotFound then bail_out s m x else Stopped x m [])
      | Inr (s1, i) \<Rightarrow>
          let cur = clients s1 ! i in
          if terminate m then
            (case wordlist_free (words_ended cur) (words cur) of
               Some x \<Rightarrow> Stopped x m []
             | None \<Rightarrow>
                 Served (s1\<lparr>clients := take i (clients s1) @ drop (Suc i) (clients s1)\<rparr>)
                        (m\<lparr>terminate := False\<rparr>)
                        clt_sem)
          else
            (case (if shm_status m = game_new then new_game (wordcnt s1) (rand e) cur
                   else calculate_results cur (tried_char m)) of
               Inl x \<Rightarrow> Stopped x m []
             | Inr cur' \<Rightarrow>
                 Served (s1\<lparr>clients := list_update (clients s1) i cur'\<rparr>)
                        (m\<lparr>shm_clientno := clientno cur',
                           shm_status := status (current_game cur'),
                           shm_errors := errors (current_game cur'),
                           shm_word := strncpy (cstr (obscured (current_game cur'))) MAX_WORD_LENGTH\<rparr>)
                        ret_sem))"

text \<open>The state of the server when it enters the loop: the list and the count the
  loader returned, no session, counter zero. \<open>t\<close> tells whether the \<^verbatim>\<open>next\<close> pointer of
  the last node the loader allocated is NULL; with no node, the global \<^verbatim>\<open>words\<close> is
  still the NULL it was initialised with.\<close>

definition server_init :: "string list \<Rightarrow> bool \<Rightarrow> nat \<Rightarrow> server" where
  "server_init ws t n =
     \<lparr>srv_words = ws, srv_words_ended = (ws = [] \<or> t), wordcnt = n, clients = [],
      client_count = 0\<rparr>"

text \<open>The shared record as \<^verbatim>\<open>ftruncate\<close> creates it: all bytes zero.\<close>

definition shm_zero :: shm where
  "shm_zero = \<lparr>shm_errors = 0, shm_clientno = 0, shm_status = game_new, tried_char = NUL,
               shm_word = replicate MAX_WORD_LENGTH NUL, terminate = False\<rparr>"

text \<open>A word fits the obscured buffer when the writes of \<open>new_game\<close>, \<^verbatim>\<open>obscured[i]\<close> for
  \<open>i < length\<close> and \<^verbatim>\<open>obscured[length+1]\<close>, stay inside the array: it has at most 78
  characters.\<close>

definition fits :: "string \<Rightarrow> bool" where
  "fits w = (length w + 1 < MAX_WORD_LENGTH)"

text \<open>The states of a server over a pool whose words all fit the obscured buffer, after
  any number of passes that were served, whatever the clients wrote into the shared
  record before each pass and whatever the environment supplied. A pass that is not
  served ends the run described here: the server exits through \<open>bail_out\<close>, or it goes
  outside an object, by following the uninitialised pointer at the end of a word list or
  by reading the game of a session that has never started one. Over such a pool
  \<open>new_game\<close> never writes outside the obscured buffer: lemma \<open>pass_served\<close> below shows
  that from these states every request for a new game, and every guess for a session
  that has started a game, is served. A pool with a longer word is outside this
  definition: there a request for a new game may write behind the buffer, into the
  fields that follow it, and the server may run on in a state that is not described.\<close>

inductive reachable :: "string list \<Rightarrow> server \<Rightarrow> bool" for pool :: "string list" where
  reachable_init: "list_all fits pool \<Longrightarrow> reachable pool (server_init pool t (length pool))"
| reachable_step: "reachable pool s \<Longrightarrow> dispatch e s m = Served s' m' p \<Longrightarrow> reachable pool s'"

subsection \<open>hangman-client.c: one exchange\<close>

definition EXIT_FAILURE :: nat where
  "EXIT_FAILURE = 1"

text \<open>The variables of the client's \<open>main\<close> that take part in an exchange.\<close>

record client_vars =
  cl_clientno :: int
  cl_game_status :: game_state
  cl_c :: char
  cl_buf :: string
  cl_errors :: "32 word"

datatype client_step =
    Exited nat shm "sem list"     \<comment> \<open>exit status, shared record left behind, posts made\<close>
  | Sent shm "sem list"           \<comment> \<open>shared record after the request, posts made\<close>

text \<open>The client's \<open>free_resources(soft)\<close> with the shared record mapped; \<open>gate\<close> tells
  whether \<^verbatim>\<open>sem_wait(clt_sem)\<close> succeeded.\<close>

definition client_free_resources :: "bool \<Rightarrow> bool \<Rightarrow> client_vars \<Rightarrow> shm \<Rightarrow> shm \<times> sem list" where
  "client_free_resources soft gate v m =
     (if soft then
        (if \<not> gate then (m, [])
         else (m\<lparr>terminate := True, shm_clientno := cl_clientno v\<rparr>, [srv_sem]))
      else (m, []))"

text \<open>Lines 231--242, after \<^verbatim>\<open>sem_wait(clt_sem)\<close> has returned.\<close>

definition client_send :: "client_vars \<Rightarrow> shm \<Rightarrow> client_step" where
  "client_send v m =
     (if terminate m then
        (case client_free_resources False False v m of (m', ps) \<Rightarrow> Exited EXIT_FAILURE m' ps)
      else
        Sent (m\<lparr>shm_status := cl_game_status v,
                shm_clientno := cl_clientno v,
                tried_char := cl_c v\<rparr>) [srv_sem])"

text \<open>Lines 254--261, after \<^verbatim>\<open>sem_wait(ret_sem)\<close> has returned.\<close>

definition client_receive :: "client_vars \<Rightarrow> shm \<Rightarrow> client_vars \<times> sem list" where
  "client_receive v m =
     (v\<lparr>cl_clientno := shm_clientno m,
        cl_buf := strncpy (cstr (shm_word m)) MAX_WORD_LENGTH,
        cl_errors := shm_errors m,
        cl_game_status := shm_status m\<rparr>, [clt_sem])"

text \<open>The client's variables when it enters its loop.\<close>

definition client_vars_init :: client_vars where
  "client_vars_init = \<lparr>cl_clientno = - 1, cl_game_status = game_new, cl_c = NUL,
                       cl_buf = replicate MAX_WORD_LENGTH NUL, cl_errors = 0\<rparr>"

text \<open>One full exchange of a client with the server: request, one pass of the server,
  response. \<open>None\<close> when the client exits instead of sending or the server stops.\<close>

definition exchange :: "env \<Rightarrow> server \<times> shm \<times> client_vars \<Rightarrow> (server \<times> shm \<times> client_vars) option" where
  "exchange e st =
     (case st of (s, m, v) \<Rightarrow>
        (case client_send v m of
           Exited code m' ps \<Rightarrow> None
         | Sent m1 ps \<Rightarrow>
             (case dispatch e s m1 of
                Stopped x m2 qs \<Rightarrow> None
              | Served s' m2 p \<Rightarrow>
                  if p = ret_sem then Some (s', m2, fst (client_receive v m2)) else None)))"

text \<open>The player's part between two exchanges: a letter typed while a game is open
  (lines 198--222), and the answer \<^verbatim>\<open>y\<close> after a game has ended (lines 288--295).\<close>

definition guess :: "char \<Rightarrow> client_vars \<Rightarrow> client_vars" where
  "guess x v = v\<lparr>cl_c := x\<rparr>"

definition again :: "client_vars \<Rightarrow> client_vars" where
  "again v = v\<lparr>cl_c := CHR ''y'', cl_game_status := game_new, cl_errors := 0\<rparr>"

text \<open>What a client sees of a response.\<close>

definition response :: "client_vars \<Rightarrow> game_state \<times> string \<times> 32 word" where
  "response v = (cl_game_status v, cstr (cl_buf v), cl_errors v)"

subsection \<open>wordlist.c: wordlist\_read\<close>

definition MAXLINELEN :: nat where
  "MAXLINELEN = 1024"

text \<open>\<^verbatim>\<open>isalpha\<close> and \<^verbatim>\<open>toupper\<close> in the C locale (the server never sets another).\<close>

definition isalpha :: "char \<Rightarrow> bool" where
  "isalpha x = (let k = (of_char x :: nat) in (65 \<le> k \<and> k \<le> 90) \<or> (97 \<le> k \<and> k \<le> 122))"

definition toupper :: "char \<Rightarrow> char" where
  "toupper x = (let k = (of_char x :: nat) in if 97 \<le> k \<and> k \<le> 122 then char_of (k - 32) else x)"

text \<open>The characters one call of \<^verbatim>\<open>fgets\<close> stores: at most \<open>k\<close>, up to and including
  the first newline.\<close>

fun fgets_line :: "nat \<Rightarrow> string \<Rightarrow> string" where
  "fgets_line k [] = []"
| "fgets_line 0 (x # xs) = []"
| "fgets_line (Suc k) (x # xs) = (if x = CHR 0x0A then [x] else x # fgets_line k xs)"

text \<open>\<^verbatim>\<open>fgets(buf, sz, f)\<close> on the unread rest \<open>f\<close> of the stream: \<open>None\<close> at the end of
  the stream, otherwise the buffer with the line and a terminator stored at its front
  (the bytes behind them keep their old value) and the rest of the stream.\<close>

definition fgets :: "string \<Rightarrow> nat \<Rightarrow> string \<Rightarrow> (string \<times> string) option" where
  "fgets buf sz f =
     (if f = [] then None
      else let line = fgets_line (sz - 1) f
           in Some (line @ NUL # drop (length line + 1) buf, drop (length line) f))"

text \<open>\<^verbatim>\<open>strcspn(buf, "\n")\<close>: the number of characters before the first newline or the
  terminator.\<close>

definition strcspn_nl :: "string \<Rightarrow> nat" where
  "strcspn_nl buf = length (takeWhile (\<lambda>x. x \<noteq> NUL \<and> x \<noteq> CHR 0x0A) buf)"

text \<open>The inner loop: \<open>s\<close> reads the buffer up to the first NUL, \<open>ptr\<close> writes the kept
  characters. Both are offsets into the same buffer.\<close>

function copy_filtered :: "string \<Rightarrow> nat \<Rightarrow> nat \<Rightarrow> error + (string \<times> nat)" where
  "copy_filtered buf s ptr =
     (if length buf \<le> s then Inl BufferOverflow
      else if buf ! s = NUL then Inr (buf, ptr)
      else if isalpha (buf ! s) \<or> buf ! s = CHR 0x20 then
        (if length buf \<le> ptr then Inl BufferOverflow
         else copy_filtered (buf[ptr := toupper (buf ! s)]) (Suc s) (Suc ptr))
      else copy_filtered buf (Suc s) ptr)"
  by pat_completeness auto
termination
  by (relation "measure (\<lambda>(buf, s, ptr). length buf - s)") auto

declare copy_filtered.simps [simp del]

lemma fgets_line_nonempty: "f \<noteq> [] \<Longrightarrow> 0 < k \<Longrightarrow> fgets_line k f \<noteq> []"
  by (cases f; cases k) auto

lemma fgets_shorter:
  assumes "fgets buf MAXLINELEN f = Some (buf1, f')"
  shows "length f' < length f"
proof -
  have ne: "f \<noteq> []"
    using assms by (auto simp: fgets_def split: if_splits)
  then have "fgets_line (MAXLINELEN - 1) f \<noteq> []"
    by (rule fgets_line_nonempty) (simp add: MAXLINELEN_def)
  moreover have "f' = drop (length (fgets_line (MAXLINELEN - 1) f)) f"
    using assms ne by (auto simp: fgets_def Let_def)
  ultimately show ?thesis
    using ne by simp
qed

text \<open>The outer loop. \<open>s\<close> is reset to the start of the buffer for every line; \<open>ptr\<close>
  is set once, before the loop, and keeps its value from line to line.\<close>

function read_lines ::
  "string \<Rightarrow> string \<Rightarrow> nat \<Rightarrow> string list \<Rightarrow> nat \<Rightarrow> error + (string list \<times> nat)" where
  "read_lines f buf ptr ws n =
     (case fgets buf MAXLINELEN f of
        None \<Rightarrow> Inr (ws, n)
      | Some (buf1, f') \<Rightarrow>
          let buf2 = list_update buf1 (strcspn_nl buf1) NUL in
          if buf2 ! 0 = NUL then read_lines f' buf2 ptr ws n
          else
            (case copy_filtered buf2 0 ptr of
               Inl x \<Rightarrow> Inl x
             | Inr (buf3, ptr') \<Rightarrow>
                 if length buf3 \<le> ptr' then Inl BufferOverflow
                 else
                   let buf4 = list_update buf3 ptr' NUL in
                   read_lines f' buf4 ptr' (ws @ [cstr buf4]) (Suc n)))"
  by pat_completeness auto
termination
  by (relation "measure (\<lambda>(f, buf, ptr, ws, n). length f)") (auto dest: fgets_shorter)

declare read_lines.simps [simp del]

text \<open>\<open>wordlist_read\<close> as \<open>main\<close> calls it, with \<^verbatim>\<open>*words == NULL\<close>: the list of words
  and the count. \<open>f\<close> is the content of the stream, \<open>buf\<close> the uninitialised line
  buffer of \<open>MAXLINELEN\<close> bytes.\<close>

definition wordlist_read :: "string \<Rightarrow> string \<Rightarrow> error + (string list \<times> nat)" where
  "wordlist_read f buf = read_lines f buf 0 [] 0"

text \<open>What the specification asks of the loader for one line: upper case, and only
  letters and spaces kept.\<close>

definition fold_line :: "string \<Rightarrow> string" where
  "fold_line l = map toupper (filter (\<lambda>x. isalpha x \<or> x = CHR 0x20) l)"

section \<open>Auxiliary notions\<close>

text \<open>What one step of the scanning loop leaves at a position of the buffer.\<close>

definition reveal :: "char \<Rightarrow> char \<Rightarrow> char \<Rightarrow> char" where
  "reveal try s ob = (if s = try then try else ob)"

text \<open>What \<open>new_game\<close> writes for a character of the secret.\<close>

definition mask :: "char \<Rightarrow> char" where
  "mask s = (if s = CHR '' '' then CHR '' '' else CHR ''_'')"

text \<open>The invariant of a game in play: the secret fits the buffer with the room
  \<open>new_game\<close> needs, and every position of the obscured buffer shows either the
  character of the secret or, where that is not a space, the placeholder.\<close>

definition masked_ok :: "char \<Rightarrow> char \<Rightarrow> bool" where
  "masked_ok ob s = (ob = s \<or> (ob = CHR ''_'' \<and> s \<noteq> CHR '' ''))"

definition game_inv :: "game \<Rightarrow> bool" where
  "game_inv g =
     (case secret g of
        None \<Rightarrow> False
      | Some sec \<Rightarrow>
          length sec + 1 < MAX_WORD_LENGTH \<and> length (obscured g) = MAX_WORD_LENGTH \<and>
          list_all2 masked_ok (take (length sec) (obscured g)) sec)"

text \<open>A position is unmasked when it does not show the placeholder; only the positions
  where the secret has no space are asked.\<close>

definition unmasked :: "char \<Rightarrow> char \<Rightarrow> bool" where
  "unmasked ob s = (s = CHR '' '' \<or> ob \<noteq> CHR ''_'')"

definition all_unmasked :: "game \<Rightarrow> bool" where
  "all_unmasked g =
     (case secret g of
        None \<Rightarrow> False
      | Some sec \<Rightarrow> list_all2 unmasked (take (length sec) (obscured g)) sec)"

text \<open>Example values: a session playing the secret \<open>CAT\<close>, the only word of its list,
  which it has drawn; the copy it drew from did not end in NULL.\<close>

definition cat_game :: "string \<Rightarrow> game_state \<Rightarrow> 32 word \<Rightarrow> game" where
  "cat_game shown st n =
     \<lparr>secret = Some ''CAT'', obscured = strncpy shown MAX_WORD_LENGTH, status = st, errors = n\<rparr>"

definition cat_client :: "string \<Rightarrow> game_state \<Rightarrow> 32 word \<Rightarrow> client" where
  "cat_client shown st n =
     \<lparr>clientno = 0, words = [], words_ended = False, current_game = cat_game shown st n,
      gamecnt = 1\<rparr>"

text \<open>Example values: an environment whose fresh list nodes do not hold NULL, the server
  over the pool \<open>[CAT]\<close> after the first New request of its first client, and a fresh
  session over two words.\<close>

definition env0 :: env where
  "env0 = \<lparr>rand = 0, malloc_game = cat_game [] game_new 0, malloc_next_null = False\<rparr>"

definition cat_server :: server where
  "cat_server = \<lparr>srv_words = [''CAT''], srv_words_ended = True, wordcnt = 1,
                 clients = [cat_client ''___'' game_open 0], client_count = 1\<rparr>"

definition pet_client :: client where
  "pet_client = \<lparr>clientno = 0, words = [''CAT'', ''DOG''], words_ended = False,
                 current_game = cat_game [] game_new 0, gamecnt = 0\<rparr>"

text \<open>Example values: the server over the empty pool after the first New request of its
  first client. The copy of the empty master list is the NULL pointer.\<close>

definition idle_client :: client where
  "idle_client =
     \<lparr>clientno = 0, words = [], words_ended = True,
      current_game = cat_game [] game_impossible 0, gamecnt = 0\<rparr>"

definition idle_server :: server where
  "idle_server = \<lparr>srv_words = [], srv_words_ended = True, wordcnt = 0,
                  clients = [idle_client], client_count = 1\<rparr>"

text \<open>A request can be given a session when it asks for a new one and the master list
  ends in NULL, so that it can be copied, or when it names a tracked session. It is for
  a session that has started a game when the session it names has counted one.\<close>

definition addressed :: "server \<Rightarrow> shm \<Rightarrow> bool" where
  "addressed s m =
     (if shm_clientno m = - 1 then srv_words_ended s
      else find_client (shm_clientno m) (clients s) \<noteq> None)"

definition started :: "server \<Rightarrow> shm \<Rightarrow> bool" where
  "started s m =
     (shm_clientno m \<noteq> - 1 \<and>
      (case find_client (shm_clientno m) (clients s) of
         None \<Rightarrow> False
       | Some i \<Rightarrow> 0 < gamecnt (clients s ! i)))"

text \<open>The sessions the shutdown loop gets through: those before the first one whose word
  list does not end in NULL.\<close>

definition released :: "client list \<Rightarrow> client list" where
  "released cs = takeWhile words_ended cs"

text \<open>The invariant of the word pools: the master list has the length the loader
  counted, and in every session the games played and the words left add up to it.\<close>

definition pool_inv :: "server \<Rightarrow> bool" where
  "pool_inv s =
     (length (srv_words s) = wordcnt s \<and>
      list_all (\<lambda>c. gamecnt c + length (words c) = wordcnt s) (clients s))"

text \<open>A sequence of New requests to one session, one \<^verbatim>\<open>rand()\<close> value each: the words
  drawn, in order, and the session afterwards. A request has drawn a word when it has
  counted a game.\<close>

definition drawn_word :: "client \<Rightarrow> client \<Rightarrow> string list" where
  "drawn_word c c' =
     (if gamecnt c' = gamecnt c then []
      else case secret (current_game c') of None \<Rightarrow> [] | Some w \<Rightarrow> [w])"

fun new_games :: "nat \<Rightarrow> nat list \<Rightarrow> client \<Rightarrow> error + (string list \<times> client)" where
  "new_games wcnt [] c = Inr ([], c)"
| "new_games wcnt (r # rs) c =
     (case new_game wcnt r c of
        Inl x \<Rightarrow> Inl x
      | Inr c1 \<Rightarrow>
          (case new_games wcnt rs c1 of
             Inl x \<Rightarrow> Inl x
           | Inr (ds, c2) \<Rightarrow> Inr (drawn_word c c1 @ ds, c2)))"

text \<open>A player at one client: the first request, a letter while a game is open, another
  game after one has ended. \<open>play\<close> runs the exchanges and collects the responses.\<close>

datatype action = Start | Letter char | Again

definition act :: "action \<Rightarrow> client_vars \<Rightarrow> client_vars" where
  "act a v = (case a of Start \<Rightarrow> v | Letter x \<Rightarrow> guess x v | Again \<Rightarrow> again v)"

fun play ::
  "(env \<times> action) list \<Rightarrow> server \<times> shm \<times> client_vars \<Rightarrow>
   ((game_state \<times> string \<times> 32 word) list \<times> server \<times> shm \<times> client_vars) option" where
  "play [] st = Some ([], st)"
| "play ((e, a) # as) (s, m, v) =
     (case exchange e (s, m, act a v) of
        None \<Rightarrow> None
      | Some st' \<Rightarrow>
          (case play as st' of
             None \<Rightarrow> None
           | Some (rs, st'') \<Rightarrow> Some (response (snd (snd st')) # rs, st'')))"

text \<open>What a run of \<open>play\<close> leaves behind: the last response, the error counters of the
  sessions, and the errors field of the shared record.\<close>

definition outcome ::
  "((game_state \<times> string \<times> 32 word) list \<times> server \<times> shm \<times> client_vars) option \<Rightarrow>
   ((game_state \<times> string \<times> 32 word) \<times> 32 word list \<times> 32 word) option" where
  "outcome r =
     map_option (\<lambda>(rs, s, m, v).
       (last rs, map (\<lambda>c. errors (current_game c)) (clients s), shm_errors m)) r"

text \<open>The invariant behind the bound on the error counter, for a session that has
  started a game: the secret is a word of the pool and fits the buffer, and the counter
  is at most \<open>MAX_ERROR\<close>, or it is \<open>MAX_ERROR + 1\<close> and the buffer shows the secret.\<close>

definition game_ok :: "string list \<Rightarrow> game \<Rightarrow> bool" where
  "game_ok pool g =
     (case secret g of
        None \<Rightarrow> False
      | Some sec \<Rightarrow>
          sec \<in> set pool \<and> length sec + 1 < MAX_WORD_LENGTH \<and>
          length (obscured g) = MAX_WORD_LENGTH \<and>
          (errors g \<le> MAX_ERROR \<or>
           (errors g = MAX_ERROR + 1 \<and> take (length sec) (obscured g) = sec)))"

definition session_ok :: "string list \<Rightarrow> client \<Rightarrow> bool" where
  "session_ok pool c =
     (set (words c) \<subseteq> set pool \<and> (0 < gamecnt c \<longrightarrow> game_ok pool (current_game c)))"

definition server_ok :: "string list \<Rightarrow> server \<Rightarrow> bool" where
  "server_ok pool s = (srv_words s = pool \<and> list_all (session_ok pool) (clients s))"

text \<open>The part of it that holds for every pool: the words of a session are words of the
  pool, and a session that has started a game plays a word of the pool that fits the
  buffer (a word that does not fit is never made the secret of a served pass).\<close>

definition drawn_ok :: "string list \<Rightarrow> client \<Rightarrow> bool" where
  "drawn_ok pool c =
     (set (words c) \<subseteq> set pool \<and>
      (0 < gamecnt c \<longrightarrow>
         (case secret (current_game c) of
            None \<Rightarrow> False
          | Some sec \<Rightarrow> sec \<in> set pool \<and> fits sec)))"

section \<open>The game logic\<close>

subsection \<open>The loops as list functions\<close>

lemma scan_append:
  "length mid = length sec \<Longrightarrow>
   scan try sec (length pre) (pre @ mid @ post, err, won) =
     (pre @ map2 (reveal try) sec mid @ post,
      err \<and> try \<notin> set sec,
      won \<and> CHR ''_'' \<notin> set (map2 (reveal try) sec mid))"
proof (induction sec arbitrary: pre mid err won)
  case Nil
  then show ?case by simp
next
  case (Cons s ss)
  then obtain m ms where mid: "mid = m # ms" and len: "length ms = length ss"
    by (cases mid) auto
  have step: "scan try ss (length (pre @ [reveal try s m])) ((pre @ [reveal try s m]) @ ms @ post, err \<and> s \<noteq> try, won \<and> reveal try s m \<noteq> CHR ''_'')
     = ((pre @ [reveal try s m]) @ map2 (reveal try) ss ms @ post,
        (err \<and> s \<noteq> try) \<and> try \<notin> set ss,
        (won \<and> reveal try s m \<noteq> CHR ''_'') \<and> CHR ''_'' \<notin> set (map2 (reveal try) ss ms))"
    by (rule Cons.IH [OF len])
  show ?case
    using step by (auto simp: mid reveal_def Let_def)
qed

lemma scan_buffer:
  assumes "length sec \<le> length obs"
  shows "scan try sec 0 (obs, True, True) =
     (map2 (reveal try) sec (take (length sec) obs) @ drop (length sec) obs,
      try \<notin> set sec,
      CHR ''_'' \<notin> set (map2 (reveal try) sec (take (length sec) obs)))"
proof -
  have "scan try sec (length ([]::string)) ([] @ take (length sec) obs @ drop (length sec) obs, True, True) =
     ([] @ map2 (reveal try) sec (take (length sec) obs) @ drop (length sec) obs,
      True \<and> try \<notin> set sec,
      True \<and> CHR ''_'' \<notin> set (map2 (reveal try) sec (take (length sec) obs)))"
    by (rule scan_append) (simp add: assms)
  then show ?thesis by simp
qed

lemma obscure_append:
  "length mid = length v \<Longrightarrow>
   obscure v (length pre) (pre @ mid @ post) = pre @ map mask v @ post"
proof (induction v arbitrary: pre mid)
  case Nil
  then show ?case by simp
next
  case (Cons s ss)
  then obtain m ms where mid: "mid = m # ms" and len: "length ms = length ss"
    by (cases mid) auto
  have "obscure ss (length (pre @ [mask s])) ((pre @ [mask s]) @ ms @ post)
          = (pre @ [mask s]) @ map mask ss @ post"
    by (rule Cons.IH [OF len])
  then show ?case
    by (simp add: mid mask_def)
qed

lemma obscure_fresh:
  assumes "length v \<le> n"
  shows "obscure v 0 (replicate n NUL) = map mask v @ replicate (n - length v) NUL"
proof -
  have "obscure v (length ([]::string)) ([] @ replicate (length v) NUL @ replicate (n - length v) NUL)
          = [] @ map mask v @ replicate (n - length v) NUL"
    by (rule obscure_append) simp
  moreover have "replicate (length v) NUL @ replicate (n - length v) NUL = replicate n NUL"
    using assms by (simp add: replicate_add [symmetric])
  ultimately show ?thesis by simp
qed

lemma map2_reveal_same: "map2 (reveal try) sec sec = sec"
  by (induction sec) (auto simp: reveal_def)

lemma list_all2_masked_reveal:
  "list_all2 masked_ok xs sec \<Longrightarrow> list_all2 masked_ok (map2 (reveal try) sec xs) sec"
  by (induction xs sec rule: list_all2_induct) (auto simp: reveal_def masked_ok_def)

lemma list_all2_masked_mask: "list_all2 masked_ok (map mask v) v"
  by (induction v) (auto simp: mask_def masked_ok_def)

lemma list_all2_masked_same: "list_all2 masked_ok v v"
  by (induction v) (auto simp: masked_ok_def)

lemma unmasked_is_secret:
  "list_all2 masked_ok xs sec \<Longrightarrow> list_all2 unmasked xs sec \<Longrightarrow>
   xs = sec \<and> CHR ''_'' \<notin> set sec"
  by (induction xs sec rule: list_all2_induct) (auto simp: unmasked_def masked_ok_def)

lemma calculate_results_revealed:
  assumes sec: "secret (current_game c) = Some sec"
    and len: "length sec \<le> MAX_WORD_LENGTH"
    and shown: "take (length sec) (obscured (current_game c)) = sec"
    and clean: "CHR ''_'' \<notin> set sec"
  shows "calculate_results c try = Inr (c\<lparr>current_game := (current_game c)\<lparr>status := game_won\<rparr>\<rparr>)"
proof -
  have "length (take (length sec) (obscured (current_game c))) = length sec"
    by (simp only: shown)
  then have le: "length sec \<le> length (obscured (current_game c))"
    by simp
  have "take (length sec) (obscured (current_game c)) @ drop (length sec) (obscured (current_game c))
          = obscured (current_game c)"
    by (rule append_take_drop_id)
  then have same: "sec @ drop (length sec) (obscured (current_game c)) = obscured (current_game c)"
    by (simp add: shown)
  show ?thesis
    using sec len clean
    by (simp add: calculate_results_def scan_buffer [OF le] shown map2_reveal_same same Let_def)
qed

subsection \<open>The invariant of a game\<close>

lemma game_inv_new_game:
  assumes "new_game wcnt rnd c = Inr c'" and "gamecnt c < wcnt"
  shows "game_inv (current_game c')"
  using assms
  by (auto simp: new_game_def game_inv_def Let_def obscure_fresh list_all2_masked_mask
           split: sum.splits if_splits)

lemma game_inv_calculate_results:
  assumes "game_inv (current_game c)" and "calculate_results c try = Inr c'"
  shows "game_inv (current_game c')"
proof -
  from assms(1) obtain sec where sec: "secret (current_game c) = Some sec"
    and len: "length sec + 1 < MAX_WORD_LENGTH"
    and buf: "length (obscured (current_game c)) = MAX_WORD_LENGTH"
    and ok: "list_all2 masked_ok (take (length sec) (obscured (current_game c))) sec"
    by (auto simp: game_inv_def split: option.splits)
  have le: "length sec \<le> length (obscured (current_game c))"
    using len buf by simp
  have ok': "list_all2 masked_ok (map2 (reveal try) sec (take (length sec) (obscured (current_game c)))) sec"
    using ok by (rule list_all2_masked_reveal)
  show ?thesis
    using assms(2) sec len buf ok' le
    by (auto simp: calculate_results_def scan_buffer [OF le] game_inv_def Let_def strncpy_def
                   list_all2_masked_same
             split: if_splits)
qed

subsection \<open>A guess on an open game\<close>

text \<open>
  C1. For a game with status Open (a valid secret that fits the buffer) and any guessed
  character, \<open>calculate_results\<close> returns, and: the error counter becomes the old value
  plus one exactly when the character occurs nowhere in the secret and the call does not
  detect a win, and otherwise keeps its value; the status becomes Lost exactly when the
  counter was incremented and its new value exceeds \<open>MAX_ERROR\<close>; and in that case the
  obscured buffer holds the whole secret, padded with NUL.
\<close>

theorem calculate_results_open:
  assumes "status (current_game c) = game_open"
    and "secret (current_game c) = Some sec"
    and "length sec \<le> MAX_WORD_LENGTH"
    and "length (obscured (current_game c)) = MAX_WORD_LENGTH"
  shows "\<exists>c'. calculate_results c try = Inr c' \<and>
     (errors (current_game c') = errors (current_game c) + 1 \<longleftrightarrow>
        try \<notin> set sec \<and> status (current_game c') \<noteq> game_won) \<and>
     (errors (current_game c') \<noteq> errors (current_game c) + 1 \<longrightarrow>
        errors (current_game c') = errors (current_game c)) \<and>
     (status (current_game c') = game_lost \<longleftrightarrow>
        errors (current_game c') = errors (current_game c) + 1 \<and>
        MAX_ERROR < errors (current_game c')) \<and>
     (status (current_game c') = game_lost \<longrightarrow>
        obscured (current_game c') = sec @ replicate (MAX_WORD_LENGTH - length sec) NUL)"
proof -
  have len: "length sec \<le> length (obscured (current_game c))"
    using assms by simp
  show ?thesis
    using assms
    by (simp add: calculate_results_def scan_buffer [OF len] Let_def strncpy_def)
qed

theorem calculate_results_open_witness:
  "status (current_game (cat_client ''C__'' game_open 8)) = game_open \<and>
   secret (current_game (cat_client ''C__'' game_open 8)) = Some ''CAT'' \<and>
   length ''CAT'' \<le> MAX_WORD_LENGTH \<and>
   length (obscured (current_game (cat_client ''C__'' game_open 8))) = MAX_WORD_LENGTH \<and>
   (\<exists>c'. calculate_results (cat_client ''C__'' game_open 8) (CHR ''Z'') = Inr c' \<and>
      errors (current_game c') = 9 \<and>
      status (current_game c') = game_lost \<and>
      cstr (obscured (current_game c')) = ''CAT'')"
proof -
  let ?c = "cat_client ''C__'' game_open 8"
  have h1: "status (current_game ?c) = game_open"
    by (simp add: cat_client_def cat_game_def)
  have h2: "secret (current_game ?c) = Some ''CAT''"
    by (simp add: cat_client_def cat_game_def)
  have h3: "length ''CAT'' \<le> MAX_WORD_LENGTH"
    by (simp add: MAX_WORD_LENGTH_def)
  have h4: "length (obscured (current_game ?c)) = MAX_WORD_LENGTH"
    by (simp add: cat_client_def cat_game_def strncpy_def MAX_WORD_LENGTH_def)
  have e: "errors (current_game ?c) = 8"
    by (simp add: cat_client_def cat_game_def)
  from calculate_results_open [OF h1 h2 h3 h4, of "CHR ''Z''"]
  obtain c' where r: "calculate_results ?c (CHR ''Z'') = Inr c'"
    and inc: "errors (current_game c') = errors (current_game ?c) + 1 \<longleftrightarrow>
                CHR ''Z'' \<notin> set ''CAT'' \<and> status (current_game c') \<noteq> game_won"
    and keep: "errors (current_game c') \<noteq> errors (current_game ?c) + 1 \<longrightarrow>
                errors (current_game c') = errors (current_game ?c)"
    and lost: "status (current_game c') = game_lost \<longleftrightarrow>
                errors (current_game c') = errors (current_game ?c) + 1 \<and>
                MAX_ERROR < errors (current_game c')"
    and shown: "status (current_game c') = game_lost \<longrightarrow>
                obscured (current_game c') = ''CAT'' @ replicate (MAX_WORD_LENGTH - length ''CAT'') NUL"
    by blast
  have "c' = ?c\<lparr>current_game := (current_game ?c)\<lparr>obscured := strncpy ''CAT'' MAX_WORD_LENGTH, status := game_lost, errors := 9\<rparr>\<rparr>"
    using r
    by (simp add: calculate_results_def cat_client_def cat_game_def strncpy_def
                  MAX_WORD_LENGTH_def MAX_ERROR_def)
  then have "errors (current_game c') = 9 \<and> status (current_game c') = game_lost \<and> cstr (obscured (current_game c')) = ''CAT''"
    by (simp add: strncpy_def cstr_def MAX_WORD_LENGTH_def)
  with h1 h2 h3 h4 r show ?thesis
    by blast
qed

subsection \<open>A guess on a game that is already won\<close>

text \<open>
  C4. In a game that satisfies the invariant and in which every non-space position is
  unmasked, \<open>calculate_results\<close> with any character returns the same session with the
  status set to Won: the obscured buffer and the error counter are unchanged.
\<close>

theorem calculate_results_won_idempotent:
  assumes "game_inv (current_game c)" and "all_unmasked (current_game c)"
  shows "calculate_results c try =
           Inr (c\<lparr>current_game := (current_game c)\<lparr>status := game_won\<rparr>\<rparr>)"
proof -
  from assms(1) obtain sec where sec: "secret (current_game c) = Some sec"
    and len: "length sec + 1 < MAX_WORD_LENGTH"
    and ok: "list_all2 masked_ok (take (length sec) (obscured (current_game c))) sec"
    by (auto simp: game_inv_def split: option.splits)
  from assms(2) sec have "list_all2 unmasked (take (length sec) (obscured (current_game c))) sec"
    by (simp add: all_unmasked_def)
  with ok have "take (length sec) (obscured (current_game c)) = sec \<and> CHR ''_'' \<notin> set sec"
    by (rule unmasked_is_secret)
  with sec len show ?thesis
    by (intro calculate_results_revealed) auto
qed

theorem calculate_results_won_idempotent_witness:
  "game_inv (current_game (cat_client ''CAT'' game_won 1)) \<and>
   all_unmasked (current_game (cat_client ''CAT'' game_won 1)) \<and>
   calculate_results (cat_client ''CAT'' game_won 1) (CHR ''Z'') =
     Inr (cat_client ''CAT'' game_won 1)"
proof -
  let ?c = "cat_client ''CAT'' game_won 1"
  have h1: "game_inv (current_game ?c)"
    by (simp add: game_inv_def cat_client_def cat_game_def strncpy_def MAX_WORD_LENGTH_def
                  masked_ok_def)
  have h2: "all_unmasked (current_game ?c)"
    by (simp add: all_unmasked_def cat_client_def cat_game_def strncpy_def MAX_WORD_LENGTH_def
                  unmasked_def)
  have "?c\<lparr>current_game := (current_game ?c)\<lparr>status := game_won\<rparr>\<rparr> = ?c"
    by (simp add: cat_client_def cat_game_def)
  with calculate_results_won_idempotent [OF h1 h2, of "CHR ''Z''"] h1 h2 show ?thesis
    by simp
qed

section \<open>Sessions and their word pools\<close>

subsection \<open>Drawing a word\<close>

lemma wordlist_copy_eq:
  "wordlist_copy fresh ended l =
     (if ended then Inr (l, l = [] \<or> fresh) else Inl InvalidPointer)"
  by (induction l) auto

lemma wordlist_free_eq:
  "wordlist_free ended l = (if ended then None else Some InvalidPointer)"
  by (induction l) auto

lemma unlink_nth:
  "pos < length ws \<Longrightarrow> unlink t pos ws = Inr (ws ! pos, take pos ws @ drop (Suc pos) ws)"
proof (induction t pos ws rule: unlink.induct)
  case (1 t pos)
  then show ?case by simp
next
  case (2 t w ws)
  then show ?case by simp
next
  case (3 t i w)
  then show ?case by simp
next
  case (4 t i w v va)
  then show ?case by simp
qed

lemma new_game_exhausted:
  "wcnt \<le> gamecnt c \<Longrightarrow>
   new_game wcnt rnd c = Inr (c\<lparr>current_game := (current_game c)\<lparr>status := game_impossible\<rparr>\<rparr>)"
  by (simp add: new_game_def)

lemma new_game_draw:
  assumes inv: "gamecnt c + length (words c) = wcnt"
    and more: "gamecnt c < wcnt"
    and fits: "length (words c ! (rnd mod length (words c))) + 1 < MAX_WORD_LENGTH"
  shows "new_game wcnt rnd c =
           Inr (c\<lparr>words := take (rnd mod length (words c)) (words c) @
                            drop (Suc (rnd mod length (words c))) (words c),
                  gamecnt := gamecnt c + 1,
                  current_game :=
                    \<lparr>secret = Some (words c ! (rnd mod length (words c))),
                     obscured = map mask (words c ! (rnd mod length (words c))) @
                                replicate (MAX_WORD_LENGTH - length (words c ! (rnd mod length (words c)))) NUL,
                     status = game_open,
                     errors = 0\<rparr>\<rparr>)"
proof -
  have n: "wcnt - gamecnt c = length (words c)"
    using inv by simp
  have "0 < length (words c)"
    using inv more by arith
  then have pos: "rnd mod length (words c) < length (words c)"
    by simp
  let ?v = "words c ! (rnd mod length (words c))"
  have le: "length ?v \<le> MAX_WORD_LENGTH"
    using fits by simp
  have pad: "list_update (map mask ?v @ replicate (MAX_WORD_LENGTH - length ?v) NUL) (Suc (length ?v)) NUL
               = map mask ?v @ replicate (MAX_WORD_LENGTH - length ?v) NUL"
    using fits by (simp add: list_update_append list_update_same_conv)
  show ?thesis
    using more fits pad
    by (simp add: new_game_def n unlink_nth [OF pos] Let_def obscure_fresh [OF le])
qed


lemma mset_unlinked:
  assumes "pos < length ws"
  shows "add_mset (ws ! pos) (mset (take pos ws @ drop (Suc pos) ws)) = mset ws"
proof -
  have "ws = take pos ws @ ws ! pos # drop (Suc pos) ws"
    using assms by (rule id_take_nth_drop)
  then have "mset ws = mset (take pos ws @ ws ! pos # drop (Suc pos) ws)"
    by simp
  then show ?thesis
    by simp
qed

lemma new_games_exhausted:
  "wcnt \<le> gamecnt c \<Longrightarrow> rs \<noteq> [] \<Longrightarrow>
   new_games wcnt rs c = Inr ([], c\<lparr>current_game := (current_game c)\<lparr>status := game_impossible\<rparr>\<rparr>)"
proof (induction rs arbitrary: c)
  case Nil
  then show ?case by simp
next
  case (Cons r rs)
  let ?c1 = "c\<lparr>current_game := (current_game c)\<lparr>status := game_impossible\<rparr>\<rparr>"
  have step: "new_game wcnt r c = Inr ?c1"
    using Cons.prems(1) by (rule new_game_exhausted)
  show ?case
  proof (cases "rs = []")
    case True
    then show ?thesis
      by (simp add: step drawn_word_def)
  next
    case False
    have "wcnt \<le> gamecnt ?c1"
      using Cons.prems(1) by simp
    from Cons.IH [OF this False] show ?thesis
      by (simp add: step drawn_word_def)
  qed
qed

lemma new_games_draws:
  assumes "gamecnt c + length (words c) = wcnt"
    and "list_all (\<lambda>w. length w + 1 < MAX_WORD_LENGTH) (words c)"
  shows "\<exists>ds c'. new_games wcnt rs c = Inr (ds, c') \<and>
           mset ds + mset (words c') = mset (words c) \<and>
           length ds = min (length rs) (length (words c)) \<and>
           gamecnt c' = gamecnt c + length ds"
  using assms
proof (induction rs arbitrary: c)
  case Nil
  then show ?case by simp
next
  case (Cons r rs)
  show ?case
  proof (cases "gamecnt c < wcnt")
    case False
    then have full: "wcnt \<le> gamecnt c"
      by simp
    have "length (words c) = 0"
      using full Cons.prems(1) by arith
    then have empty: "words c = []"
      by simp
    have "new_games wcnt (r # rs) c =
            Inr ([], c\<lparr>current_game := (current_game c)\<lparr>status := game_impossible\<rparr>\<rparr>)"
      using full by (rule new_games_exhausted) simp
    then show ?thesis
      by (simp add: empty)
  next
    case True
    let ?pos = "r mod length (words c)"
    have ne: "0 < length (words c)"
      using True Cons.prems(1) by arith
    then have pos: "?pos < length (words c)"
      by simp
    then have "words c ! ?pos \<in> set (words c)"
      by simp
    with Cons.prems(2) have fits: "length (words c ! ?pos) + 1 < MAX_WORD_LENGTH"
      by (simp add: list_all_iff)
    let ?c1 = "c\<lparr>words := take ?pos (words c) @ drop (Suc ?pos) (words c),
                  gamecnt := gamecnt c + 1,
                  current_game :=
                    \<lparr>secret = Some (words c ! ?pos),
                     obscured = map mask (words c ! ?pos) @
                                replicate (MAX_WORD_LENGTH - length (words c ! ?pos)) NUL,
                     status = game_open,
                     errors = 0\<rparr>\<rparr>"
    have step: "new_game wcnt r c = Inr ?c1"
      using Cons.prems(1) True fits by (rule new_game_draw)
    have inv1: "gamecnt ?c1 + length (words ?c1) = wcnt"
      using Cons.prems(1) pos by simp
    have fit1: "list_all (\<lambda>w. length w + 1 < MAX_WORD_LENGTH) (words ?c1)"
      using Cons.prems(2) by (auto simp: list_all_iff dest: in_set_takeD in_set_dropD)
    from Cons.IH [OF inv1 fit1] obtain ds c' where
      run: "new_games wcnt rs ?c1 = Inr (ds, c')"
      and ms: "mset ds + mset (words c') = mset (words ?c1)"
      and len: "length ds = min (length rs) (length (words ?c1))"
      and cnt: "gamecnt c' = gamecnt ?c1 + length ds"
      by blast
    have dw: "drawn_word c ?c1 = [words c ! ?pos]"
      by (simp add: drawn_word_def)
    have all: "new_games wcnt (r # rs) c = Inr (words c ! ?pos # ds, c')"
      by (simp only: new_games.simps step run dw sum.case prod.case append.simps)
    have ms': "mset (words c ! ?pos # ds) + mset (words c') = mset (words c)"
      using ms mset_unlinked [OF pos] by simp
    have len': "length (words c ! ?pos # ds) = min (length (r # rs)) (length (words c))"
      using len pos by simp
    have cnt': "gamecnt c' = gamecnt c + length (words c ! ?pos # ds)"
      using cnt by simp
    from all ms' len' cnt' show ?thesis
      by blast
  qed
qed

lemma calculate_results_frame:
  "calculate_results c try = Inr c' \<Longrightarrow>
   words c' = words c \<and> gamecnt c' = gamecnt c \<and> clientno c' = clientno c"
  by (auto simp: calculate_results_def Let_def split: option.splits if_splits prod.splits)

lemma new_game_count:
  assumes "gamecnt c + length (words c) = wcnt" and "new_game wcnt rnd c = Inr c'"
  shows "gamecnt c' + length (words c') = wcnt"
proof (cases "gamecnt c < wcnt")
  case False
  with assms show ?thesis
    by (auto simp: new_game_def)
next
  case True
  then have "0 < length (words c)"
    using assms(1) by arith
  then have pos: "rnd mod length (words c) < length (words c)"
    by simp
  have n: "wcnt - gamecnt c = length (words c)"
    using assms(1) by simp
  show ?thesis
    using assms True pos
    by (auto simp: new_game_def n unlink_nth [OF pos] Let_def split: if_splits)
qed

lemma new_game_overflow:
  assumes inv: "gamecnt c + length (words c) = wcnt"
    and more: "gamecnt c < wcnt"
    and long: "\<not> length (words c ! (rnd mod length (words c))) + 1 < MAX_WORD_LENGTH"
  shows "new_game wcnt rnd c = Inl BufferOverflow"
proof -
  have n: "wcnt - gamecnt c = length (words c)"
    using inv by simp
  have "0 < length (words c)"
    using inv more by arith
  then have pos: "rnd mod length (words c) < length (words c)"
    by simp
  show ?thesis
    using more long by (simp add: new_game_def n unlink_nth [OF pos] Let_def)
qed

lemma new_games_sound:
  assumes "gamecnt c + length (words c) = wcnt"
    and "new_games wcnt rs c = Inr (ds, c')"
  shows "mset ds + mset (words c') = mset (words c) \<and>
         length ds = min (length rs) (length (words c)) \<and>
         gamecnt c' = gamecnt c + length ds"
  using assms
proof (induction rs arbitrary: c ds)
  case Nil
  then show ?case by simp
next
  case (Cons r rs)
  from Cons.prems(2) obtain c1 ds1 where
    step: "new_game wcnt r c = Inr c1"
    and run: "new_games wcnt rs c1 = Inr (ds1, c')"
    and ds: "ds = drawn_word c c1 @ ds1"
    by (auto split: sum.splits)
  have inv1: "gamecnt c1 + length (words c1) = wcnt"
    using Cons.prems(1) step by (rule new_game_count)
  note ih = Cons.IH [OF inv1 run]
  show ?case
  proof (cases "gamecnt c < wcnt")
    case False
    then have full: "wcnt \<le> gamecnt c"
      by simp
    have "length (words c) = 0"
      using full Cons.prems(1) by arith
    then have empty: "words c = []"
      by simp
    from full step have c1: "c1 = c\<lparr>current_game := (current_game c)\<lparr>status := game_impossible\<rparr>\<rparr>"
      by (simp add: new_game_exhausted)
    have "drawn_word c c1 = []"
      by (simp add: c1 drawn_word_def)
    with ih show ?thesis
      by (simp add: ds c1 empty)
  next
    case True
    let ?pos = "r mod length (words c)"
    have "0 < length (words c)"
      using True Cons.prems(1) by arith
    then have pos: "?pos < length (words c)"
      by simp
    have fit: "length (words c ! ?pos) + 1 < MAX_WORD_LENGTH"
    proof (rule ccontr)
      assume "\<not> length (words c ! ?pos) + 1 < MAX_WORD_LENGTH"
      with Cons.prems(1) True have "new_game wcnt r c = Inl BufferOverflow"
        by (rule new_game_overflow)
      with step show False
        by simp
    qed
    from new_game_draw [OF Cons.prems(1) True fit] step
    have w1: "words c1 = take ?pos (words c) @ drop (Suc ?pos) (words c)"
      and g1: "gamecnt c1 = gamecnt c + 1"
      and s1: "secret (current_game c1) = Some (words c ! ?pos)"
      by auto
    have dw: "drawn_word c c1 = [words c ! ?pos]"
      by (simp add: drawn_word_def g1 s1)
    have "mset ds + mset (words c') = mset (words c)"
      using ih mset_unlinked [OF pos] by (simp add: ds dw w1)
    moreover have "length ds = min (length (r # rs)) (length (words c))"
      using ih pos by (simp add: ds dw w1)
    moreover have "gamecnt c' = gamecnt c + length ds"
      using ih by (simp add: ds dw g1)
    ultimately show ?thesis
      by simp
  qed
qed

text \<open>
  C3. For a session in which games played and words left add up to the pool size:
  a New request with games left computes a draw index \<open>rand() % (wordcnt - gamecnt)\<close>
  below the number of words left, and removes the node at that index (the list is one
  shorter) and makes its word the secret of an open game with no errors, counting one
  game more --- unless that word does not fit the obscured buffer, where the code writes
  outside the array; a New request with no games left sets the status Impossible and
  changes nothing else, and so does any sequence of further New requests; after any
  sequence of New requests that returns, the words drawn and the words left are together
  exactly the words the session had (so no node is drawn twice, and no word when the pool
  has no duplicates), one word is drawn per request until the pool is empty, and every
  sequence returns when all words fit.
\<close>

theorem new_game_without_replacement:
  assumes inv: "gamecnt c + length (words c) = wcnt"
  shows "(gamecnt c < wcnt \<longrightarrow>
            rnd mod (wcnt - gamecnt c) < length (words c) \<and>
            length (take (rnd mod (wcnt - gamecnt c)) (words c) @
                    drop (Suc (rnd mod (wcnt - gamecnt c))) (words c)) + 1 = length (words c) \<and>
            new_game wcnt rnd c =
              (if length (words c ! (rnd mod (wcnt - gamecnt c))) + 1 < MAX_WORD_LENGTH then
                 Inr (c\<lparr>words := take (rnd mod (wcnt - gamecnt c)) (words c) @
                                  drop (Suc (rnd mod (wcnt - gamecnt c))) (words c),
                        gamecnt := gamecnt c + 1,
                        current_game :=
                          \<lparr>secret = Some (words c ! (rnd mod (wcnt - gamecnt c))),
                           obscured = map mask (words c ! (rnd mod (wcnt - gamecnt c))) @
                                      replicate (MAX_WORD_LENGTH -
                                        length (words c ! (rnd mod (wcnt - gamecnt c)))) NUL,
                           status = game_open,
                           errors = 0\<rparr>\<rparr>)
               else Inl BufferOverflow)) \<and>
         (gamecnt c = wcnt \<longrightarrow>
            new_game wcnt rnd c =
              Inr (c\<lparr>current_game := (current_game c)\<lparr>status := game_impossible\<rparr>\<rparr>) \<and>
            (rs \<noteq> [] \<longrightarrow>
               new_games wcnt rs c =
                 Inr ([], c\<lparr>current_game := (current_game c)\<lparr>status := game_impossible\<rparr>\<rparr>))) \<and>
         (\<forall>ds c'. new_games wcnt rs c = Inr (ds, c') \<longrightarrow>
            mset ds + mset (words c') = mset (words c) \<and>
            length ds = min (length rs) (length (words c)) \<and>
            gamecnt c' = gamecnt c + length ds \<and>
            (distinct (words c) \<longrightarrow> distinct ds)) \<and>
         (list_all (\<lambda>w. length w + 1 < MAX_WORD_LENGTH) (words c) \<longrightarrow>
            (\<exists>ds c'. new_games wcnt rs c = Inr (ds, c')))"
proof (intro conjI impI allI)
  assume more: "gamecnt c < wcnt"
  have n: "wcnt - gamecnt c = length (words c)"
    using inv by simp
  have "0 < length (words c)"
    using inv more by arith
  then have pos: "rnd mod length (words c) < length (words c)"
    by simp
  then show "rnd mod (wcnt - gamecnt c) < length (words c)"
    by (simp add: n)
  show "length (take (rnd mod (wcnt - gamecnt c)) (words c) @
                drop (Suc (rnd mod (wcnt - gamecnt c))) (words c)) + 1 = length (words c)"
    using pos by (simp add: n)
  show "new_game wcnt rnd c =
              (if length (words c ! (rnd mod (wcnt - gamecnt c))) + 1 < MAX_WORD_LENGTH then
                 Inr (c\<lparr>words := take (rnd mod (wcnt - gamecnt c)) (words c) @
                                  drop (Suc (rnd mod (wcnt - gamecnt c))) (words c),
                        gamecnt := gamecnt c + 1,
                        current_game :=
                          \<lparr>secret = Some (words c ! (rnd mod (wcnt - gamecnt c))),
                           obscured = map mask (words c ! (rnd mod (wcnt - gamecnt c))) @
                                      replicate (MAX_WORD_LENGTH -
                                        length (words c ! (rnd mod (wcnt - gamecnt c)))) NUL,
                           status = game_open,
                           errors = 0\<rparr>\<rparr>)
               else Inl BufferOverflow)"
  proof (cases "length (words c ! (rnd mod length (words c))) + 1 < MAX_WORD_LENGTH")
    case True
    from new_game_draw [OF inv more True] True show ?thesis
      by (simp only: n if_True)
  next
    case False
    from new_game_overflow [OF inv more False] False show ?thesis
      by (simp only: n if_False)
  qed
next
  assume "gamecnt c = wcnt"
  then show "new_game wcnt rnd c =
              Inr (c\<lparr>current_game := (current_game c)\<lparr>status := game_impossible\<rparr>\<rparr>)"
    by (simp add: new_game_exhausted)
next
  assume "gamecnt c = wcnt" and "rs \<noteq> []"
  then show "new_games wcnt rs c =
                 Inr ([], c\<lparr>current_game := (current_game c)\<lparr>status := game_impossible\<rparr>\<rparr>)"
    by (simp add: new_games_exhausted)
next
  fix ds c'
  assume run: "new_games wcnt rs c = Inr (ds, c')"
  from new_games_sound [OF inv run]
  show "mset ds + mset (words c') = mset (words c)"
    and "length ds = min (length rs) (length (words c))"
    and "gamecnt c' = gamecnt c + length ds"
    by simp_all
next
  fix ds c'
  assume run: "new_games wcnt rs c = Inr (ds, c')" and d: "distinct (words c)"
  from new_games_sound [OF inv run] have "mset (ds @ words c') = mset (words c)"
    by simp
  then have "distinct (ds @ words c')"
    using d by (metis mset_eq_imp_distinct_iff)
  then show "distinct ds"
    by simp
next
  assume "list_all (\<lambda>w. length w + 1 < MAX_WORD_LENGTH) (words c)"
  with inv show "\<exists>ds c'. new_games wcnt rs c = Inr (ds, c')"
    using new_games_draws [of c wcnt rs] by blast
qed

theorem new_game_without_replacement_witness:
  "gamecnt pet_client + length (words pet_client) = 2 \<and>
   new_game 2 5 pet_client =
     Inr (pet_client\<lparr>words := [''CAT''], gamecnt := 1,
                     current_game := \<lparr>secret = Some ''DOG'',
                                      obscured = strncpy ''___'' MAX_WORD_LENGTH,
                                      status = game_open, errors = 0\<rparr>\<rparr>) \<and>
   (\<exists>ds c'. new_games 2 [5, 7, 1] pet_client = Inr (ds, c') \<and>
      mset ds + mset (words c') = mset (words pet_client) \<and>
      length ds = 2 \<and> gamecnt c' = 2 \<and> distinct ds) \<and>
   gamecnt (cat_client ''CAT'' game_won 1) + length (words (cat_client ''CAT'' game_won 1)) = 1 \<and>
   new_game 1 5 (cat_client ''CAT'' game_won 1) = Inr (cat_client ''CAT'' game_impossible 1) \<and>
   new_games 1 [5, 7] (cat_client ''CAT'' game_won 1) = Inr ([], cat_client ''CAT'' game_impossible 1)"
proof -
  have h: "gamecnt pet_client + length (words pet_client) = 2"
    by (simp add: pet_client_def)
  note inst = new_game_without_replacement [OF h, of 5 "[5, 7, 1]"]
  have g: "gamecnt pet_client < 2"
    by (simp add: pet_client_def)
  have fit: "list_all (\<lambda>w. length w + 1 < MAX_WORD_LENGTH) (words pet_client)"
    by (simp add: pet_client_def MAX_WORD_LENGTH_def)
  from inst g have a: "new_game 2 5 pet_client =
     Inr (pet_client\<lparr>words := [''CAT''], gamecnt := 1,
                     current_game := \<lparr>secret = Some ''DOG'',
                                      obscured = strncpy ''___'' MAX_WORD_LENGTH,
                                      status = game_open, errors = 0\<rparr>\<rparr>)"
    by (simp add: pet_client_def MAX_WORD_LENGTH_def strncpy_def mask_def)
  from inst fit obtain ds c' where run: "new_games 2 [5, 7, 1] pet_client = Inr (ds, c')"
    by blast
  from inst run have "mset ds + mset (words c') = mset (words pet_client) \<and>
      length ds = min (length [5, 7, 1::nat]) (length (words pet_client)) \<and>
      gamecnt c' = gamecnt pet_client + length ds \<and>
      (distinct (words pet_client) \<longrightarrow> distinct ds)"
    by blast
  then have "mset ds + mset (words c') = mset (words pet_client) \<and>
      length ds = 2 \<and> gamecnt c' = 2 \<and> distinct ds"
    by (simp add: pet_client_def)
  with run have b: "\<exists>ds c'. new_games 2 [5, 7, 1] pet_client = Inr (ds, c') \<and>
      mset ds + mset (words c') = mset (words pet_client) \<and>
      length ds = 2 \<and> gamecnt c' = 2 \<and> distinct ds"
    by blast
  let ?c = "cat_client ''CAT'' game_won 1"
  have h2: "gamecnt ?c + length (words ?c) = 1"
    by (simp add: cat_client_def)
  have full: "gamecnt ?c = 1"
    by (simp add: cat_client_def)
  have imp: "?c\<lparr>current_game := (current_game ?c)\<lparr>status := game_impossible\<rparr>\<rparr> =
               cat_client ''CAT'' game_impossible 1"
    by (simp add: cat_client_def cat_game_def)
  have ne: "[5, 7::nat] \<noteq> []"
    by simp
  from new_game_without_replacement [OF h2, of 5 "[5, 7]"] full ne
  have "new_game 1 5 ?c = Inr (?c\<lparr>current_game := (current_game ?c)\<lparr>status := game_impossible\<rparr>\<rparr>) \<and>
        new_games 1 [5, 7] ?c = Inr ([], ?c\<lparr>current_game := (current_game ?c)\<lparr>status := game_impossible\<rparr>\<rparr>)"
    by blast
  then have c: "new_game 1 5 ?c = Inr (cat_client ''CAT'' game_impossible 1)"
    and d: "new_games 1 [5, 7] ?c = Inr ([], cat_client ''CAT'' game_impossible 1)"
    by (simp_all only: imp)
  from h a b h2 c d show ?thesis
    by (intro conjI)
qed

subsection \<open>The passes of the server\<close>

lemma find_client_Some:
  "find_client no cs = Some i \<Longrightarrow>
   i < length cs \<and> clientno (cs ! i) = no \<and> (\<forall>j<i. clientno (cs ! j) \<noteq> no)"
proof (induction cs arbitrary: i)
  case Nil
  then show ?case by simp
next
  case (Cons c cs)
  show ?case
  proof (cases "clientno c = no")
    case True
    with Cons.prems show ?thesis by simp
  next
    case False
    with Cons.prems obtain k where k: "find_client no cs = Some k" and i: "i = Suc k"
      by auto
    from Cons.IH [OF k] False show ?thesis
      by (auto simp: i nth_Cons split: nat.splits)
  qed
qed

lemma find_client_None: "find_client no cs = None \<longleftrightarrow> no \<notin> clientno ` set cs"
  by (induction cs) auto

lemma release_clients_eq:
  "release_clients cs =
     (replicate (length (released cs)) clt_sem,
      if list_all words_ended cs then None else Some InvalidPointer)"
  by (induction cs) (auto simp: released_def wordlist_free_eq)

lemma free_resources_eq:
  "free_resources s m =
     (m\<lparr>terminate := True\<rparr>, replicate (length (released (clients s))) clt_sem,
      if list_all words_ended (clients s) then None else Some InvalidPointer)"
  by (simp add: free_resources_def release_clients_eq)

lemma bail_out_eq:
  "bail_out s m x =
     Stopped (if list_all words_ended (clients s) then x else InvalidPointer)
       (m\<lparr>terminate := True\<rparr>) (replicate (length (released (clients s))) clt_sem)"
  by (simp add: bail_out_def free_resources_eq)

lemma list_all_update:
  "list_all P xs \<Longrightarrow> P x \<Longrightarrow> list_all P (list_update xs i x)"
  using set_update_subset_insert [of xs i x] by (auto simp: list_all_iff)

lemma list_all_remove:
  "list_all P xs \<Longrightarrow> list_all P (take i xs @ drop (Suc i) xs)"
  by (auto simp: list_all_iff dest: in_set_takeD in_set_dropD)

lemma list_all_nth: "list_all P xs \<Longrightarrow> i < length xs \<Longrightarrow> P (xs ! i)"
  by (simp add: list_all_iff)

lemma resolve_new:
  "shm_clientno m = - 1 \<Longrightarrow>
   resolve e s m =
     (if srv_words_ended s then
        Inr (s\<lparr>clients :=
                 \<lparr>clientno = sint (client_count s),
                  words = srv_words s,
                  words_ended = (srv_words s = [] \<or> malloc_next_null e),
                  current_game = malloc_game e,
                  gamecnt = 0\<rparr> # clients s,
               client_count := client_count s + 1\<rparr>, 0)
      else Inl InvalidPointer)"
  by (simp add: resolve_def wordlist_copy_eq)

lemma resolve_old:
  "shm_clientno m \<noteq> - 1 \<Longrightarrow>
   resolve e s m =
     (case find_client (shm_clientno m) (clients s) of
        None \<Rightarrow> Inl ClientNotFound
      | Some i \<Rightarrow> Inr (s, i))"
  by (simp add: resolve_def)

lemma resolve_index:
  "resolve e s m = Inr (s1, i) \<Longrightarrow> i < length (clients s1)"
  by (cases "shm_clientno m = - 1")
     (auto simp: resolve_new resolve_old split: if_splits option.splits dest: find_client_Some)

lemma resolve_addressed:
  "addressed s m \<longleftrightarrow> (\<exists>s1 i. resolve e s m = Inr (s1, i))"
  by (cases "shm_clientno m = - 1")
     (auto simp: addressed_def resolve_new resolve_old split: option.splits)

lemma pool_inv_resolve:
  assumes "pool_inv s" and "resolve e s m = Inr (s1, i)"
  shows "pool_inv s1"
  using assms
  by (cases "shm_clientno m = - 1")
     (auto simp: resolve_new resolve_old pool_inv_def split: if_splits option.splits)

lemma dispatch_resolve:
  assumes "dispatch e s m = Served s' m' p"
  obtains s1 i where "resolve e s m = Inr (s1, i)"
  using assms by (cases "resolve e s m") (auto simp: dispatch_def bail_out_eq split: if_splits)

lemma dispatch_leave_eq:
  "resolve e s m = Inr (s1, i) \<Longrightarrow> terminate m \<Longrightarrow>
   dispatch e s m =
     (if words_ended (clients s1 ! i) then
        Served (s1\<lparr>clients := take i (clients s1) @ drop (Suc i) (clients s1)\<rparr>)
               (m\<lparr>terminate := False\<rparr>) clt_sem
      else Stopped InvalidPointer m [])"
  by (simp add: dispatch_def wordlist_free_eq)

lemma dispatch_start_eq:
  "resolve e s m = Inr (s1, i) \<Longrightarrow> \<not> terminate m \<Longrightarrow> shm_status m = game_new \<Longrightarrow>
   dispatch e s m =
     (case new_game (wordcnt s1) (rand e) (clients s1 ! i) of
        Inl x \<Rightarrow> Stopped x m []
      | Inr cur' \<Rightarrow>
          Served (s1\<lparr>clients := list_update (clients s1) i cur'\<rparr>)
                 (m\<lparr>shm_clientno := clientno cur',
                    shm_status := status (current_game cur'),
                    shm_errors := errors (current_game cur'),
                    shm_word := strncpy (cstr (obscured (current_game cur'))) MAX_WORD_LENGTH\<rparr>)
                 ret_sem)"
  by (simp add: dispatch_def)

lemma dispatch_guess_eq:
  "resolve e s m = Inr (s1, i) \<Longrightarrow> \<not> terminate m \<Longrightarrow> shm_status m \<noteq> game_new \<Longrightarrow>
   dispatch e s m =
     (case calculate_results (clients s1 ! i) (tried_char m) of
        Inl x \<Rightarrow> Stopped x m []
      | Inr cur' \<Rightarrow>
          Served (s1\<lparr>clients := list_update (clients s1) i cur'\<rparr>)
                 (m\<lparr>shm_clientno := clientno cur',
                    shm_status := status (current_game cur'),
                    shm_errors := errors (current_game cur'),
                    shm_word := strncpy (cstr (obscured (current_game cur'))) MAX_WORD_LENGTH\<rparr>)
                 ret_sem)"
  by (simp add: dispatch_def)

lemma dispatch_unknown_eq:
  "shm_clientno m \<noteq> - 1 \<Longrightarrow> find_client (shm_clientno m) (clients s) = None \<Longrightarrow>
   dispatch e s m =
     Stopped (if list_all words_ended (clients s) then ClientNotFound else InvalidPointer)
       (m\<lparr>terminate := True\<rparr>) (replicate (length (released (clients s))) clt_sem)"
  by (simp add: dispatch_def resolve_old bail_out_eq)

lemma dispatch_uncopied_eq:
  "shm_clientno m = - 1 \<Longrightarrow> \<not> srv_words_ended s \<Longrightarrow>
   dispatch e s m = Stopped InvalidPointer m []"
  by (simp add: dispatch_def resolve_new)

text \<open>What a served pass does to the sessions: it may put a fresh one in front, and it
  removes one, or replaces one by the result of \<open>new_game\<close> or \<open>calculate_results\<close>.\<close>

lemma served_sessions:
  assumes d: "dispatch e s m = Served s' m' p"
    and all: "list_all P (clients s)"
    and fresh: "P \<lparr>clientno = sint (client_count s),
                   words = srv_words s,
                   words_ended = (srv_words s = [] \<or> malloc_next_null e),
                   current_game = malloc_game e,
                   gamecnt = 0\<rparr>"
    and draw: "\<And>c c'. P c \<Longrightarrow> new_game (wordcnt s) (rand e) c = Inr c' \<Longrightarrow> P c'"
    and guess: "\<And>c c'. P c \<Longrightarrow> calculate_results c (tried_char m) = Inr c' \<Longrightarrow> P c'"
  shows "list_all P (clients s')"
proof -
  from d obtain s1 i where r: "resolve e s m = Inr (s1, i)"
    by (rule dispatch_resolve)
  have all1: "list_all P (clients s1)" and wc: "wordcnt s1 = wordcnt s"
    using r all fresh
    by (cases "shm_clientno m = - 1";
        auto simp: resolve_new resolve_old split: if_splits option.splits)+
  have i: "i < length (clients s1)"
    using r by (rule resolve_index)
  have cur: "P (clients s1 ! i)"
    using all1 i by (rule list_all_nth)
  show ?thesis
  proof (cases "terminate m")
    case True
    with d r have s': "s' = s1\<lparr>clients := take i (clients s1) @ drop (Suc i) (clients s1)\<rparr>"
      by (simp add: dispatch_leave_eq split: if_splits)
    have "list_all P (take i (clients s1) @ drop (Suc i) (clients s1))"
      using all1 by (rule list_all_remove)
    then show ?thesis
      by (simp add: s' del: list_all_append)
  next
    case False
    show ?thesis
    proof (cases "shm_status m = game_new")
      case True
      with d r \<open>\<not> terminate m\<close> obtain cur' where
        n: "new_game (wordcnt s1) (rand e) (clients s1 ! i) = Inr cur'"
        and s': "s' = s1\<lparr>clients := list_update (clients s1) i cur'\<rparr>"
        by (auto simp: dispatch_start_eq split: sum.splits)
      have "P cur'"
        using cur n by (simp add: wc draw)
      with all1 show ?thesis
        by (simp add: s' list_all_update)
    next
      case False
      with d r \<open>\<not> terminate m\<close> obtain cur' where
        n: "calculate_results (clients s1 ! i) (tried_char m) = Inr cur'"
        and s': "s' = s1\<lparr>clients := list_update (clients s1) i cur'\<rparr>"
        by (auto simp: dispatch_guess_eq split: sum.splits)
      have "P cur'"
        using cur n by (rule guess)
      with all1 show ?thesis
        by (simp add: s' list_all_update)
    qed
  qed
qed

lemma wordcnt_resolve:
  "resolve e s m = Inr (s1, i) \<Longrightarrow>
   wordcnt s1 = wordcnt s \<and> srv_words s1 = srv_words s \<and>
   srv_words_ended s1 = srv_words_ended s"
  by (cases "shm_clientno m = - 1")
     (auto simp: resolve_new resolve_old split: if_splits option.splits)

lemma dispatch_clients:
  assumes "dispatch e s m = Served s' m' p" and "resolve e s m = Inr (s1, i)"
  shows "\<exists>cs. s' = s1\<lparr>clients := cs\<rparr>"
proof (cases "terminate m")
  case True
  with assms show ?thesis
    by (auto simp: dispatch_leave_eq split: if_splits)
next
  case False
  with assms show ?thesis
    by (cases "shm_status m = game_new")
       (auto simp: dispatch_start_eq dispatch_guess_eq split: sum.splits)
qed

lemma wordcnt_dispatch:
  assumes "dispatch e s m = Served s' m' p"
  shows "wordcnt s' = wordcnt s \<and> srv_words s' = srv_words s \<and>
         srv_words_ended s' = srv_words_ended s"
proof -
  from assms obtain s1 i where r: "resolve e s m = Inr (s1, i)"
    by (rule dispatch_resolve)
  from dispatch_clients [OF assms r] wordcnt_resolve [OF r] show ?thesis
    by auto
qed

lemma pool_inv_dispatch:
  assumes inv: "pool_inv s" and d: "dispatch e s m = Served s' m' p"
  shows "pool_inv s'"
proof -
  have "list_all (\<lambda>c. gamecnt c + length (words c) = wordcnt s) (clients s')"
    using d
  proof (rule served_sessions)
    show "list_all (\<lambda>c. gamecnt c + length (words c) = wordcnt s) (clients s)"
      using inv by (simp add: pool_inv_def)
    show "gamecnt \<lparr>clientno = sint (client_count s), words = srv_words s,
                   words_ended = (srv_words s = [] \<or> malloc_next_null e),
                   current_game = malloc_game e, gamecnt = 0\<rparr> +
          length (words \<lparr>clientno = sint (client_count s), words = srv_words s,
                   words_ended = (srv_words s = [] \<or> malloc_next_null e),
                   current_game = malloc_game e, gamecnt = 0\<rparr>) = wordcnt s"
      using inv by (simp add: pool_inv_def)
    show "gamecnt c' + length (words c') = wordcnt s"
      if "gamecnt c + length (words c) = wordcnt s"
        and "new_game (wordcnt s) (rand e) c = Inr c'" for c c'
      using that by (rule new_game_count)
    show "gamecnt c' + length (words c') = wordcnt s"
      if "gamecnt c + length (words c) = wordcnt s"
        and "calculate_results c (tried_char m) = Inr c'" for c c'
      using that(1) calculate_results_frame [OF that(2)] by simp
  qed
  with inv wordcnt_dispatch [OF d] show ?thesis
    by (simp add: pool_inv_def)
qed

lemma pool_inv_init: "pool_inv (server_init pool t (length pool))"
  by (simp add: pool_inv_def server_init_def)

lemma pool_inv_reachable:
  "reachable pool s \<Longrightarrow> pool_inv s \<and> wordcnt s = length pool \<and> srv_words s = pool"
proof (induction rule: reachable.induct)
  case (reachable_init t)
  show ?case
    by (simp add: pool_inv_init) (simp add: server_init_def)
next
  case (reachable_step s e m s' m' p)
  then show ?case
    using pool_inv_dispatch wordcnt_dispatch by metis
qed


subsection \<open>Which passes are served\<close>

lemma calculate_results_secret:
  "calculate_results c try = Inr c' \<Longrightarrow> secret (current_game c') = secret (current_game c)"
  by (auto simp: calculate_results_def Let_def split: option.splits if_splits prod.splits)

lemma calculate_results_returns:
  "secret (current_game c) = Some sec \<Longrightarrow> length sec \<le> MAX_WORD_LENGTH \<Longrightarrow>
   \<exists>c'. calculate_results c try = Inr c'"
  by (auto simp: calculate_results_def Let_def split: prod.splits)

lemma unlink_set:
  "unlink t pos ws = Inr (v, rest) \<Longrightarrow> v \<in> set ws \<and> set rest \<subseteq> set ws"
proof (induction t pos ws arbitrary: v rest rule: unlink.induct)
  case (1 t pos)
  then show ?case by simp
next
  case (2 t w ws)
  then show ?case by auto
next
  case (3 t i w)
  then show ?case by simp
next
  case (4 t i w x xs)
  then show ?case
    by (auto split: sum.splits)
qed

lemma drawn_ok_new_game:
  assumes ok: "drawn_ok pool c" and n: "new_game wcnt rnd c = Inr c'"
  shows "drawn_ok pool c'"
proof (cases "wcnt \<le> gamecnt c")
  case True
  with n have "c' = c\<lparr>current_game := (current_game c)\<lparr>status := game_impossible\<rparr>\<rparr>"
    by (simp add: new_game_def)
  with ok show ?thesis
    by (simp add: drawn_ok_def split: option.splits)
next
  case False
  with n obtain v rest where
    u: "unlink (words_ended c) (rnd mod (wcnt - gamecnt c)) (words c) = Inr (v, rest)"
    by (auto simp: new_game_def Let_def split: sum.splits)
  from unlink_set [OF u] ok have v: "v \<in> set pool" and rest: "set rest \<subseteq> set pool"
    by (auto simp: drawn_ok_def)
  from n False u have fit: "length v + 1 < MAX_WORD_LENGTH"
    and w: "words c' = rest" and s: "secret (current_game c') = Some v"
    by (auto simp: new_game_def Let_def split: if_splits)
  show ?thesis
    using v rest fit by (simp add: drawn_ok_def w s fits_def)
qed

lemma drawn_ok_calculate_results:
  assumes ok: "drawn_ok pool c" and r: "calculate_results c try = Inr c'"
  shows "drawn_ok pool c'"
  using ok calculate_results_frame [OF r] calculate_results_secret [OF r]
  by (simp add: drawn_ok_def)

lemma drawn_ok_reachable:
  "reachable pool s \<Longrightarrow> list_all (drawn_ok pool) (clients s)"
proof (induction rule: reachable.induct)
  case (reachable_init t)
  show ?case
    by (simp add: server_init_def)
next
  case (reachable_step s e m s' m' p)
  have sw: "srv_words s = pool"
    using reachable_step.hyps(1) by (simp add: pool_inv_reachable)
  show ?case
    using reachable_step.hyps(2)
  proof (rule served_sessions)
    show "list_all (drawn_ok pool) (clients s)"
      by (rule reachable_step.IH)
    show "drawn_ok pool \<lparr>clientno = sint (client_count s), words = srv_words s,
                   words_ended = (srv_words s = [] \<or> malloc_next_null e),
                   current_game = malloc_game e, gamecnt = 0\<rparr>"
      by (simp add: drawn_ok_def sw)
    show "drawn_ok pool c'"
      if "drawn_ok pool c" and "new_game (wordcnt s) (rand e) c = Inr c'" for c c'
      using that by (rule drawn_ok_new_game)
    show "drawn_ok pool c'"
      if "drawn_ok pool c" and "calculate_results c (tried_char m) = Inr c'" for c c'
      using that by (rule drawn_ok_calculate_results)
  qed
qed

text \<open>From a state the server has reached, a request without the terminate flag that
  can be given a session, and that asks for a new game or is a guess for a session that
  has started one, is served --- unless it asks for a new game and the word drawn does
  not fit the obscured buffer: there the pass writes outside the array.\<close>

lemma pass_outcome:
  assumes reach: "reachable pool s"
    and nt: "\<not> terminate m"
    and ad: "addressed s m"
    and st: "shm_status m = game_new \<or> started s m"
  shows "(\<exists>s' m'. dispatch e s m = Served s' m' ret_sem) \<or>
         (dispatch e s m = Stopped BufferOverflow m [] \<and> shm_status m = game_new \<and>
          \<not> list_all fits pool)"
proof -
  from ad obtain s1 i where r: "resolve e s m = Inr (s1, i)"
    by (auto simp: resolve_addressed [of s m e])
  have inv: "pool_inv s" and sw: "srv_words s = pool"
    using pool_inv_reachable [OF reach] by simp_all
  have dr: "list_all (drawn_ok pool) (clients s)"
    using reach by (rule drawn_ok_reachable)
  have inv1: "pool_inv s1"
    using inv r by (rule pool_inv_resolve)
  have i: "i < length (clients s1)"
    using r by (rule resolve_index)
  have dr1: "list_all (drawn_ok pool) (clients s1)"
    using r dr sw
    by (cases "shm_clientno m = - 1")
       (auto simp: resolve_new resolve_old drawn_ok_def split: if_splits option.splits)
  let ?cur = "clients s1 ! i"
  have sum: "gamecnt ?cur + length (words ?cur) = wordcnt s1"
    using inv1 i by (simp add: pool_inv_def list_all_iff)
  have ok: "drawn_ok pool ?cur"
    using dr1 i by (rule list_all_nth)
  show ?thesis
  proof (cases "shm_status m = game_new")
    case True
    note d = dispatch_start_eq [OF r nt True]
    show ?thesis
    proof (cases "gamecnt ?cur < wordcnt s1")
      case False
      then have "wordcnt s1 \<le> gamecnt ?cur"
        by simp
      then have "new_game (wordcnt s1) (rand e) ?cur =
                   Inr (?cur\<lparr>current_game := (current_game ?cur)\<lparr>status := game_impossible\<rparr>\<rparr>)"
        by (rule new_game_exhausted)
      with d show ?thesis
        by simp
    next
      case more: True
      let ?pos = "rand e mod length (words ?cur)"
      have "0 < length (words ?cur)"
        using sum more by arith
      then have pos: "?pos < length (words ?cur)"
        by simp
      show ?thesis
      proof (cases "length (words ?cur ! ?pos) + 1 < MAX_WORD_LENGTH")
        case True
        from new_game_draw [OF sum more True] d show ?thesis
          by simp
      next
        case False
        from new_game_overflow [OF sum more False] d
        have stop: "dispatch e s m = Stopped BufferOverflow m []"
          by simp
        have "words ?cur ! ?pos \<in> set pool"
          using ok pos by (auto simp: drawn_ok_def)
        with False have "\<not> list_all fits pool"
          by (auto simp: list_all_iff fits_def)
        with stop \<open>shm_status m = game_new\<close> show ?thesis
          by simp
      qed
    qed
  next
    case False
    with st have started: "started s m"
      by simp
    then have no: "shm_clientno m \<noteq> - 1"
      by (simp add: started_def)
    from started obtain j where j: "find_client (shm_clientno m) (clients s) = Some j"
      and g: "0 < gamecnt (clients s ! j)"
      by (auto simp: started_def split: option.splits)
    from r no j have same: "s1 = s" "i = j"
      by (simp_all add: resolve_old)
    from ok g same obtain sec where sec: "secret (current_game ?cur) = Some sec"
      and fit: "fits sec"
      by (auto simp: drawn_ok_def split: option.splits)
    have "length sec \<le> MAX_WORD_LENGTH"
      using fit by (simp add: fits_def)
    with sec obtain c' where "calculate_results ?cur (tried_char m) = Inr c'"
      using calculate_results_returns by blast
    with dispatch_guess_eq [OF r nt False] show ?thesis
      by simp
  qed
qed




lemma replicate_unfold: "replicate (numeral k) x = x # replicate (pred_numeral k) x"
  by (simp add: numeral_eq_Suc)

text \<open>Passes over the pool \<open>[CAT]\<close>: the first New request, and a wrong letter. A pass
  over the empty pool: the first New request. A pass over a pool of one word of 79
  letters: the first New request.\<close>

lemma dispatch_first_new:
  "dispatch env0 (server_init [''CAT''] True 1) (shm_zero\<lparr>shm_clientno := - 1\<rparr>) =
     Served cat_server
       (shm_zero\<lparr>shm_clientno := 0, shm_status := game_open,
                 shm_word := strncpy ''___'' MAX_WORD_LENGTH\<rparr>)
       ret_sem"
  by (simp add: dispatch_def resolve_def server_init_def shm_zero_def env0_def new_game_def
                cat_server_def cat_client_def cat_game_def strncpy_def cstr_def
                MAX_WORD_LENGTH_def replicate_unfold)

lemma reachable_cat_server: "reachable [''CAT''] cat_server"
proof -
  have "reachable [''CAT''] (server_init [''CAT''] True 1)"
    using reachable_init [of "[''CAT'']" True] by (simp add: fits_def MAX_WORD_LENGTH_def)
  then show ?thesis
    using dispatch_first_new by (rule reachable_step)
qed

lemma dispatch_wrong_guess:
  "dispatch env0 cat_server (shm_zero\<lparr>shm_status := game_open, tried_char := CHR ''Z''\<rparr>) =
     Served (cat_server\<lparr>clients := [cat_client ''___'' game_open 1]\<rparr>)
       (shm_zero\<lparr>shm_status := game_open, tried_char := CHR ''Z'', shm_errors := 1,
                 shm_word := strncpy ''___'' MAX_WORD_LENGTH\<rparr>)
       ret_sem"
  by (simp add: dispatch_def resolve_def shm_zero_def calculate_results_def
                cat_server_def cat_client_def cat_game_def strncpy_def cstr_def
                MAX_WORD_LENGTH_def MAX_ERROR_def replicate_unfold)

lemma dispatch_idle_new:
  "dispatch env0 (server_init [] True 0) (shm_zero\<lparr>shm_clientno := - 1\<rparr>) =
     Served idle_server
       (shm_zero\<lparr>shm_clientno := 0, shm_status := game_impossible,
                 shm_word := strncpy [] MAX_WORD_LENGTH\<rparr>)
       ret_sem"
  by (simp add: dispatch_def resolve_def server_init_def shm_zero_def env0_def new_game_def
                idle_server_def idle_client_def cat_game_def strncpy_def cstr_def)

lemma reachable_idle_server: "reachable [] idle_server"
proof -
  have "reachable [] (server_init [] True 0)"
    using reachable_init [of "[]" True] by simp
  then show ?thesis
    using dispatch_idle_new by (rule reachable_step)
qed






section \<open>Semaphores\<close>

lemma stopped_resolved:
  assumes r: "resolve e s m = Inr (s1, i)" and d: "dispatch e s m = Stopped x m' ps"
  shows "ps = [] \<and> m' = m"
proof (cases "terminate m")
  case True
  with d r show ?thesis
    by (auto simp: dispatch_leave_eq split: if_splits)
next
  case False
  with d r show ?thesis
    by (cases "shm_status m = game_new")
       (auto simp: dispatch_start_eq dispatch_guess_eq split: sum.splits)
qed

lemma released_all: "list_all words_ended cs \<Longrightarrow> released cs = cs"
  by (simp add: released_def list_all_iff)

text \<open>
  C5, as the code has it. A served pass posts exactly one semaphore: the gate \<^verbatim>\<open>clt_sem\<close>
  when the request carries the terminate flag, response-ready \<^verbatim>\<open>ret_sem\<close> otherwise. A
  pass that is not served posts nothing, unless it is the pass for an unknown client
  number, which enters the shutdown path through \<open>bail_out\<close>. The shutdown path sets the
  terminate flag and posts the gate once for every session it gets through, which are
  all sessions when every session's word list ends in NULL.
\<close>

theorem server_posts:
  "(dispatch e s m = Served s' m' p \<longrightarrow> p = (if terminate m then clt_sem else ret_sem)) \<and>
   (dispatch e s m = Stopped x m' ps \<longrightarrow>
      ps = (if shm_clientno m \<noteq> - 1 \<and> find_client (shm_clientno m) (clients s) = None
            then replicate (length (released (clients s))) clt_sem else [])) \<and>
   free_resources s m =
     (m\<lparr>terminate := True\<rparr>, replicate (length (released (clients s))) clt_sem,
      if list_all words_ended (clients s) then None else Some InvalidPointer) \<and>
   (list_all words_ended (clients s) \<longrightarrow> released (clients s) = clients s)"
proof (intro conjI impI)
  assume d: "dispatch e s m = Served s' m' p"
  then obtain s1 i where r: "resolve e s m = Inr (s1, i)"
    by (rule dispatch_resolve)
  show "p = (if terminate m then clt_sem else ret_sem)"
  proof (cases "terminate m")
    case True
    with d r show ?thesis
      by (auto simp: dispatch_leave_eq split: if_splits)
  next
    case False
    with d r show ?thesis
      by (cases "shm_status m = game_new")
         (auto simp: dispatch_start_eq dispatch_guess_eq split: sum.splits)
  qed
next
  assume d: "dispatch e s m = Stopped x m' ps"
  show "ps = (if shm_clientno m \<noteq> - 1 \<and> find_client (shm_clientno m) (clients s) = None
            then replicate (length (released (clients s))) clt_sem else [])"
  proof (cases "shm_clientno m \<noteq> - 1 \<and> find_client (shm_clientno m) (clients s) = None")
    case True
    with d show ?thesis
      by (simp add: dispatch_unknown_eq)
  next
    case False
    show ?thesis
    proof (cases "resolve e s m")
      case (Inl y)
      with False have "shm_clientno m = - 1" and "\<not> srv_words_ended s"
        by (auto simp: resolve_def wordlist_copy_eq split: if_splits option.splits)
      with d False show ?thesis
        by (simp add: dispatch_uncopied_eq)
    next
      case (Inr a)
      obtain s1 i where "a = (s1, i)"
        by (cases a)
      with Inr have "resolve e s m = Inr (s1, i)"
        by simp
      from stopped_resolved [OF this d] False show ?thesis
        by auto
    qed
  qed
next
  show "free_resources s m =
     (m\<lparr>terminate := True\<rparr>, replicate (length (released (clients s))) clt_sem,
      if list_all words_ended (clients s) then None else Some InvalidPointer)"
    by (rule free_resources_eq)
next
  assume "list_all words_ended (clients s)"
  then show "released (clients s) = clients s"
    by (rule released_all)
qed

text \<open>As the specification states it, C5 fails. Over the empty pool the copy of the
  master list is the NULL pointer, whatever the memory holds: the pass that handles a
  terminate request posts the gate, and so does the shutdown path with one session.\<close>

theorem server_posts_counterexample:
  "dispatch env0 (server_init [] True 0) (shm_zero\<lparr>shm_clientno := - 1, terminate := True\<rparr>) =
     Served ((server_init [] True 0)\<lparr>client_count := 1\<rparr>) (shm_zero\<lparr>shm_clientno := - 1\<rparr>) clt_sem \<and>
   free_resources idle_server shm_zero = (shm_zero\<lparr>terminate := True\<rparr>, [clt_sem], None)"
  by (simp add: dispatch_def resolve_def free_resources_def server_init_def shm_zero_def
                idle_server_def idle_client_def)

theorem server_posts_witness:
  "dispatch env0 cat_server (shm_zero\<lparr>shm_status := game_open, tried_char := CHR ''Z''\<rparr>) =
     Served (cat_server\<lparr>clients := [cat_client ''___'' game_open 1]\<rparr>)
       (shm_zero\<lparr>shm_status := game_open, tried_char := CHR ''Z'', shm_errors := 1,
                 shm_word := strncpy ''___'' MAX_WORD_LENGTH\<rparr>)
       ret_sem \<and>
   \<not> terminate (shm_zero\<lparr>shm_status := game_open, tried_char := CHR ''Z''\<rparr>) \<and>
   dispatch env0 idle_server (shm_zero\<lparr>shm_clientno := 7\<rparr>) =
     Stopped ClientNotFound (shm_zero\<lparr>shm_clientno := 7, terminate := True\<rparr>) [clt_sem] \<and>
   find_client 7 (clients idle_server) = None \<and>
   list_all words_ended (clients idle_server) \<and>
   released (clients idle_server) = clients idle_server \<and>
   free_resources idle_server shm_zero = (shm_zero\<lparr>terminate := True\<rparr>, [clt_sem], None)"
proof -
  let ?m = "shm_zero\<lparr>shm_status := game_open, tried_char := CHR ''Z''\<rparr>"
  let ?s' = "cat_server\<lparr>clients := [cat_client ''___'' game_open 1]\<rparr>"
  let ?m' = "shm_zero\<lparr>shm_status := game_open, tried_char := CHR ''Z'', shm_errors := 1,
                     shm_word := strncpy ''___'' MAX_WORD_LENGTH\<rparr>"
  let ?m7 = "shm_zero\<lparr>shm_clientno := 7\<rparr>"
  have nt: "\<not> terminate ?m"
    by (simp add: shm_zero_def)
  have d7: "dispatch env0 idle_server ?m7 =
              Stopped ClientNotFound (shm_zero\<lparr>shm_clientno := 7, terminate := True\<rparr>) [clt_sem]"
    by (simp add: dispatch_def resolve_def bail_out_def free_resources_def idle_server_def
                  idle_client_def shm_zero_def)
  have f7: "find_client 7 (clients idle_server) = None"
    by (simp add: idle_server_def idle_client_def)
  have all: "list_all words_ended (clients idle_server)"
    by (simp add: idle_server_def idle_client_def)
  note inst = server_posts [of env0 idle_server ?m7]
  from inst all have rel: "released (clients idle_server) = clients idle_server"
    by simp
  from server_posts [of env0 idle_server shm_zero]
  have "free_resources idle_server shm_zero =
          (shm_zero\<lparr>terminate := True\<rparr>, replicate (length (released (clients idle_server))) clt_sem,
           if list_all words_ended (clients idle_server) then None else Some InvalidPointer)"
    by simp
  then have fr: "free_resources idle_server shm_zero = (shm_zero\<lparr>terminate := True\<rparr>, [clt_sem], None)"
    by (simp add: rel all) (simp add: idle_server_def)
  from dispatch_wrong_guess nt d7 f7 all rel fr show ?thesis
    by (intro conjI)
qed

lemma dispatch_new_session_leaves:
  assumes "terminate m" and "shm_clientno m = - 1"
  shows "dispatch e s m =
           (if srv_words_ended s \<and> (srv_words s = [] \<or> malloc_next_null e) then
              Served (s\<lparr>client_count := client_count s + 1\<rparr>) (m\<lparr>terminate := False\<rparr>) clt_sem
            else Stopped InvalidPointer m [])"
proof (cases "srv_words_ended s")
  case False
  with assms show ?thesis
    by (simp add: dispatch_uncopied_eq)
next
  case True
  let ?c = "\<lparr>clientno = sint (client_count s), words = srv_words s,
             words_ended = (srv_words s = [] \<or> malloc_next_null e),
             current_game = malloc_game e, gamecnt = 0\<rparr>"
  have r: "resolve e s m = Inr (s\<lparr>clients := ?c # clients s, client_count := client_count s + 1\<rparr>, 0)"
    using True assms(2) by (simp add: resolve_new)
  show ?thesis
    using True by (simp add: dispatch_leave_eq [OF r assms(1)])
qed

text \<open>
  C6, as the code has it. A pass for a request with the terminate flag. With number \<open>-1\<close>
  a session is created and, when its copy of the master list ends in NULL, removed
  again, so only the counter moves. With the number of a session, the first session of
  that number is removed when its word list ends in NULL. Where the session is removed,
  the pass clears the terminate flag, leaves every other field of the shared record as
  it was, and posts the gate \<^verbatim>\<open>clt_sem\<close>. Where the list of the session does not end in
  NULL, \<open>wordlist_free\<close> leaves the chain before the flag is cleared and before anything
  is posted. With any other number the server bails out through the shutdown path.
\<close>

theorem dispatch_terminate:
  assumes "terminate m"
  shows "(shm_clientno m = - 1 \<longrightarrow>
            dispatch e s m =
              (if srv_words_ended s \<and> (srv_words s = [] \<or> malloc_next_null e) then
                 Served (s\<lparr>client_count := client_count s + 1\<rparr>) (m\<lparr>terminate := False\<rparr>) clt_sem
               else Stopped InvalidPointer m [])) \<and>
         (shm_clientno m \<noteq> - 1 \<longrightarrow>
            (\<forall>i. find_client (shm_clientno m) (clients s) = Some i \<longrightarrow>
               i < length (clients s) \<and> clientno (clients s ! i) = shm_clientno m \<and>
               (\<forall>j<i. clientno (clients s ! j) \<noteq> shm_clientno m) \<and>
               dispatch e s m =
                 (if words_ended (clients s ! i) then
                    Served (s\<lparr>clients := take i (clients s) @ drop (Suc i) (clients s)\<rparr>)
                           (m\<lparr>terminate := False\<rparr>) clt_sem
                  else Stopped InvalidPointer m [])) \<and>
            (find_client (shm_clientno m) (clients s) = None \<longrightarrow>
               dispatch e s m =
                 Stopped (if list_all words_ended (clients s) then ClientNotFound
                          else InvalidPointer)
                   m (replicate (length (released (clients s))) clt_sem)))"
proof (intro conjI impI allI)
  assume "shm_clientno m = - 1"
  with assms show "dispatch e s m =
              (if srv_words_ended s \<and> (srv_words s = [] \<or> malloc_next_null e) then
                 Served (s\<lparr>client_count := client_count s + 1\<rparr>) (m\<lparr>terminate := False\<rparr>) clt_sem
               else Stopped InvalidPointer m [])"
    by (rule dispatch_new_session_leaves)
next
  fix i
  assume no: "shm_clientno m \<noteq> - 1"
    and f: "find_client (shm_clientno m) (clients s) = Some i"
  from find_client_Some [OF f]
  show "i < length (clients s)" and "clientno (clients s ! i) = shm_clientno m"
    by simp_all
  show "clientno (clients s ! j) \<noteq> shm_clientno m" if "j < i" for j
    using find_client_Some [OF f] that by simp
  have r: "resolve e s m = Inr (s, i)"
    using no f by (simp add: resolve_old)
  show "dispatch e s m =
                 (if words_ended (clients s ! i) then
                    Served (s\<lparr>clients := take i (clients s) @ drop (Suc i) (clients s)\<rparr>)
                           (m\<lparr>terminate := False\<rparr>) clt_sem
                  else Stopped InvalidPointer m [])"
    by (rule dispatch_leave_eq [OF r assms])
next
  assume no: "shm_clientno m \<noteq> - 1"
    and f: "find_client (shm_clientno m) (clients s) = None"
  have "m\<lparr>terminate := True\<rparr> = m"
    using assms by simp
  with dispatch_unknown_eq [OF no f, of e]
  show "dispatch e s m =
                 Stopped (if list_all words_ended (clients s) then ClientNotFound
                          else InvalidPointer)
                   m (replicate (length (released (clients s))) clt_sem)"
    by simp
qed

text \<open>As the specification states it, C6 fails: the semaphore posted is the gate, not
  response-ready. The session is one over the empty pool, whose word list is the NULL
  pointer.\<close>

theorem dispatch_terminate_counterexample:
  "dispatch env0 idle_server (shm_zero\<lparr>terminate := True\<rparr>)
     = Served (idle_server\<lparr>clients := []\<rparr>) shm_zero clt_sem \<and>
   clt_sem \<noteq> ret_sem"
  by (simp add: dispatch_def resolve_def idle_server_def idle_client_def shm_zero_def)

theorem dispatch_terminate_witness:
  "terminate (shm_zero\<lparr>terminate := True\<rparr>) \<and>
   find_client 0 (clients idle_server) = Some 0 \<and>
   words_ended (clients idle_server ! 0) \<and>
   dispatch env0 idle_server (shm_zero\<lparr>terminate := True\<rparr>)
     = Served (idle_server\<lparr>clients := []\<rparr>) shm_zero clt_sem \<and>
   find_client 0 (clients cat_server) = Some 0 \<and>
   \<not> words_ended (clients cat_server ! 0) \<and>
   dispatch env0 cat_server (shm_zero\<lparr>terminate := True\<rparr>)
     = Stopped InvalidPointer (shm_zero\<lparr>terminate := True\<rparr>) [] \<and>
   dispatch env0 idle_server (shm_zero\<lparr>shm_clientno := - 1, terminate := True\<rparr>)
     = Served (idle_server\<lparr>client_count := 2\<rparr>) (shm_zero\<lparr>shm_clientno := - 1\<rparr>) clt_sem \<and>
   dispatch env0 cat_server (shm_zero\<lparr>shm_clientno := - 1, terminate := True\<rparr>)
     = Stopped InvalidPointer (shm_zero\<lparr>shm_clientno := - 1, terminate := True\<rparr>) [] \<and>
   find_client 7 (clients idle_server) = None \<and>
   dispatch env0 idle_server (shm_zero\<lparr>shm_clientno := 7, terminate := True\<rparr>)
     = Stopped ClientNotFound (shm_zero\<lparr>shm_clientno := 7, terminate := True\<rparr>) [clt_sem]"
proof -
  let ?m = "shm_zero\<lparr>terminate := True\<rparr>"
  have t: "terminate ?m"
    by simp
  have n: "shm_clientno ?m \<noteq> - 1"
    by (simp add: shm_zero_def)
  have f: "find_client (shm_clientno ?m) (clients idle_server) = Some 0"
    by (simp add: shm_zero_def idle_server_def idle_client_def)
  have f0: "find_client 0 (clients idle_server) = Some 0"
    by (simp add: idle_server_def idle_client_def)
  have w: "words_ended (clients idle_server ! 0)"
    by (simp add: idle_server_def idle_client_def)
  from dispatch_terminate [OF t, of env0 idle_server] n f
  have "dispatch env0 idle_server ?m =
          (if words_ended (clients idle_server ! 0) then
             Served (idle_server\<lparr>clients := take 0 (clients idle_server) @
                                           drop (Suc 0) (clients idle_server)\<rparr>)
                    (?m\<lparr>terminate := False\<rparr>) clt_sem
           else Stopped InvalidPointer ?m [])"
    by blast
  moreover have "take 0 (clients idle_server) @ drop (Suc 0) (clients idle_server) = []"
    by (simp add: idle_server_def)
  moreover have "?m\<lparr>terminate := False\<rparr> = shm_zero"
    by (simp add: shm_zero_def)
  ultimately have a: "dispatch env0 idle_server ?m = Served (idle_server\<lparr>clients := []\<rparr>) shm_zero clt_sem"
    using w by simp
  have fc: "find_client (shm_clientno ?m) (clients cat_server) = Some 0"
    by (simp add: shm_zero_def cat_server_def cat_client_def)
  have fc0: "find_client 0 (clients cat_server) = Some 0"
    by (simp add: cat_server_def cat_client_def)
  have wc: "\<not> words_ended (clients cat_server ! 0)"
    by (simp add: cat_server_def cat_client_def)
  from dispatch_terminate [OF t, of env0 cat_server] n fc
  have "dispatch env0 cat_server ?m =
          (if words_ended (clients cat_server ! 0) then
             Served (cat_server\<lparr>clients := take 0 (clients cat_server) @
                                          drop (Suc 0) (clients cat_server)\<rparr>)
                    (?m\<lparr>terminate := False\<rparr>) clt_sem
           else Stopped InvalidPointer ?m [])"
    by blast
  with wc have a': "dispatch env0 cat_server ?m = Stopped InvalidPointer ?m []"
    by simp
  let ?m1 = "shm_zero\<lparr>shm_clientno := - 1, terminate := True\<rparr>"
  have t1: "terminate ?m1"
    by simp
  have n1: "shm_clientno ?m1 = - 1"
    by simp
  from dispatch_terminate [OF t1, of env0 idle_server] n1
  have "dispatch env0 idle_server ?m1 =
          (if srv_words_ended idle_server \<and> (srv_words idle_server = [] \<or> malloc_next_null env0) then
             Served (idle_server\<lparr>client_count := client_count idle_server + 1\<rparr>)
                    (?m1\<lparr>terminate := False\<rparr>) clt_sem
           else Stopped InvalidPointer ?m1 [])"
    by blast
  moreover have "srv_words_ended idle_server \<and> srv_words idle_server = []"
    by (simp add: idle_server_def)
  moreover have "client_count idle_server + 1 = 2"
    by (simp add: idle_server_def)
  moreover have "?m1\<lparr>terminate := False\<rparr> = shm_zero\<lparr>shm_clientno := - 1\<rparr>"
    by (simp add: shm_zero_def)
  ultimately have b: "dispatch env0 idle_server ?m1 =
      Served (idle_server\<lparr>client_count := 2\<rparr>) (shm_zero\<lparr>shm_clientno := - 1\<rparr>) clt_sem"
    by simp
  from dispatch_terminate [OF t1, of env0 cat_server] n1
  have "dispatch env0 cat_server ?m1 =
          (if srv_words_ended cat_server \<and> (srv_words cat_server = [] \<or> malloc_next_null env0) then
             Served (cat_server\<lparr>client_count := client_count cat_server + 1\<rparr>)
                    (?m1\<lparr>terminate := False\<rparr>) clt_sem
           else Stopped InvalidPointer ?m1 [])"
    by blast
  moreover have "srv_words cat_server \<noteq> [] \<and> \<not> malloc_next_null env0"
    by (simp add: cat_server_def env0_def)
  ultimately have b': "dispatch env0 cat_server ?m1 = Stopped InvalidPointer ?m1 []"
    by simp
  let ?m7 = "shm_zero\<lparr>shm_clientno := 7, terminate := True\<rparr>"
  have t7: "terminate ?m7"
    by simp
  have n7: "shm_clientno ?m7 \<noteq> - 1"
    by simp
  have f7': "find_client (shm_clientno ?m7) (clients idle_server) = None"
    by (simp add: idle_server_def idle_client_def)
  have f7: "find_client 7 (clients idle_server) = None"
    by (simp add: idle_server_def idle_client_def)
  from dispatch_terminate [OF t7, of env0 idle_server] n7 f7'
  have "dispatch env0 idle_server ?m7 =
          Stopped (if list_all words_ended (clients idle_server) then ClientNotFound
                   else InvalidPointer)
            ?m7 (replicate (length (released (clients idle_server))) clt_sem)"
    by blast
  moreover have "list_all words_ended (clients idle_server)"
    by (simp add: idle_server_def idle_client_def)
  moreover have "released (clients idle_server) = clients idle_server"
    by (simp add: released_def idle_server_def idle_client_def)
  moreover have "length (clients idle_server) = 1"
    by (simp add: idle_server_def)
  ultimately have c: "dispatch env0 idle_server ?m7 = Stopped ClientNotFound ?m7 [clt_sem]"
    by simp
  from t f0 w a fc0 wc a' b b' f7 c show ?thesis
    by (intro conjI)
qed

text \<open>
  C9. A client that finds the terminate flag set after acquiring the gate exits with
  \<open>EXIT_FAILURE\<close>, which is not zero; the shared record is as it found it and it has
  posted no semaphore.
\<close>

theorem client_send_terminate:
  "terminate m \<Longrightarrow> client_send v m = Exited EXIT_FAILURE m [] \<and> 0 < EXIT_FAILURE"
  by (simp add: client_send_def client_free_resources_def EXIT_FAILURE_def)

theorem client_send_terminate_witness:
  "terminate (shm_zero\<lparr>terminate := True\<rparr>) \<and>
   client_send client_vars_init (shm_zero\<lparr>terminate := True\<rparr>) =
     Exited EXIT_FAILURE (shm_zero\<lparr>terminate := True\<rparr>) [] \<and>
   0 < EXIT_FAILURE"
proof -
  have h: "terminate (shm_zero\<lparr>terminate := True\<rparr>)"
    by simp
  from client_send_terminate [OF h, of client_vars_init] h show ?thesis
    by simp
qed

section \<open>A whole game\<close>

lemmas eval_defs = exchange_def client_send_def client_receive_def dispatch_def resolve_def
  new_game_def calculate_results_def act_def guess_def again_def response_def
  server_init_def shm_zero_def client_vars_init_def strncpy_def cstr_def
  MAX_WORD_LENGTH_def MAX_ERROR_def replicate_unfold

text \<open>
  C2. With the pool \<open>[CAT]\<close> (and \<open>MAX_ERROR = 8\<close>), the master list ending in NULL,
  whatever \<^verbatim>\<open>rand()\<close> returns and whatever the allocated memory holds: New, C, Z, A, T,
  New are answered by Open \<open>___\<close> 0, Open \<open>C__\<close> 0, Open \<open>C__\<close> 1, Open \<open>CA_\<close> 1, Won
  \<open>CAT\<close> 1 and Impossible (with the word and the count of the game before).
\<close>

theorem cat_scenario:
  "map_option fst
     (play [(e1, Start), (e2, Letter (CHR ''C'')), (e3, Letter (CHR ''Z'')),
            (e4, Letter (CHR ''A'')), (e5, Letter (CHR ''T'')), (e6, Again)]
        (server_init [''CAT''] True 1, shm_zero, client_vars_init))
   = Some [(game_open, ''___'', 0), (game_open, ''C__'', 0), (game_open, ''C__'', 1),
           (game_open, ''CA_'', 1), (game_won, ''CAT'', 1), (game_impossible, ''CAT'', 1)]"
  by (simp add: eval_defs)

theorem cat_scenario_witness:
  "map_option fst
     (play [(env0, Start), (env0, Letter (CHR ''C'')), (env0, Letter (CHR ''Z'')),
            (env0, Letter (CHR ''A'')), (env0, Letter (CHR ''T'')), (env0, Again)]
        (server_init [''CAT''] True 1, shm_zero, client_vars_init))
   = Some [(game_open, ''___'', 0), (game_open, ''C__'', 0), (game_open, ''C__'', 1),
           (game_open, ''CA_'', 1), (game_won, ''CAT'', 1), (game_impossible, ''CAT'', 1)]"
  by (rule cat_scenario)

section \<open>The bound on the error counter\<close>

lemma word_step_lost:
  "e \<le> MAX_ERROR \<Longrightarrow> MAX_ERROR < e + 1 \<Longrightarrow> e + 1 = MAX_ERROR + 1"
  unfolding MAX_ERROR_def by unat_arith

lemma word_step_open: "\<not> MAX_ERROR < e + 1 \<Longrightarrow> e + 1 \<le> MAX_ERROR"
  by simp

lemma word_bound: "e \<le> MAX_ERROR \<or> e = MAX_ERROR + 1 \<Longrightarrow> e \<le> MAX_ERROR + 1"
  unfolding MAX_ERROR_def by unat_arith

lemma length_obscure: "length (obscure v i obs) = length obs"
  by (induction v arbitrary: i obs) auto

lemma session_ok_new_game:
  assumes ok: "session_ok pool c" and n: "new_game wcnt rnd c = Inr c'"
  shows "session_ok pool c'"
proof (cases "wcnt \<le> gamecnt c")
  case True
  with n have "c' = c\<lparr>current_game := (current_game c)\<lparr>status := game_impossible\<rparr>\<rparr>"
    by (simp add: new_game_def)
  with ok show ?thesis
    by (simp add: session_ok_def game_ok_def split: option.splits)
next
  case False
  with n obtain v rest where
    u: "unlink (words_ended c) (rnd mod (wcnt - gamecnt c)) (words c) = Inr (v, rest)"
    by (auto simp: new_game_def Let_def split: sum.splits)
  from unlink_set [OF u] ok have v: "v \<in> set pool" and rest: "set rest \<subseteq> set pool"
    by (auto simp: session_ok_def)
  from n False u have fit: "length v + 1 < MAX_WORD_LENGTH"
    and c': "c' = c\<lparr>words := rest, gamecnt := gamecnt c + 1,
                     current_game :=
                       \<lparr>secret = Some v,
                        obscured = (obscure v 0 (replicate MAX_WORD_LENGTH NUL))[length v + 1 := NUL],
                        status = game_open, errors = 0\<rparr>\<rparr>"
    by (auto simp: new_game_def Let_def split: if_splits)
  show ?thesis
    using v rest fit
    by (simp add: c' session_ok_def game_ok_def length_obscure)
qed

lemma session_ok_calculate_results:
  assumes ok: "session_ok pool c"
    and clean: "list_all (\<lambda>w. CHR ''_'' \<notin> set w) pool"
    and r: "calculate_results c try = Inr c'"
  shows "session_ok pool c'"
proof (cases "0 < gamecnt c")
  case False
  with ok calculate_results_frame [OF r] show ?thesis
    by (simp add: session_ok_def)
next
  case True
  with ok obtain sec where sec: "secret (current_game c) = Some sec"
    and mem: "sec \<in> set pool"
    and fit: "length sec + 1 < MAX_WORD_LENGTH"
    and buf: "length (obscured (current_game c)) = MAX_WORD_LENGTH"
    and err: "errors (current_game c) \<le> MAX_ERROR \<or>
              (errors (current_game c) = MAX_ERROR + 1 \<and>
               take (length sec) (obscured (current_game c)) = sec)"
    by (auto simp: session_ok_def game_ok_def split: option.splits)
  have ws: "set (words c') \<subseteq> set pool"
    using ok calculate_results_frame [OF r] by (simp add: session_ok_def)
  have le: "length sec \<le> length (obscured (current_game c))"
    using fit buf by simp
  have "game_ok pool (current_game c')"
  proof (cases "errors (current_game c) \<le> MAX_ERROR")
    case True
    define obs' where "obs' = map2 (reveal try) sec (take (length sec) (obscured (current_game c))) @
                                drop (length sec) (obscured (current_game c))"
    define won where "won \<longleftrightarrow> CHR ''_'' \<notin> set (map2 (reveal try) sec (take (length sec) (obscured (current_game c))))"
    have len': "length obs' = MAX_WORD_LENGTH"
      using le buf by (simp add: obs'_def)
    have sc: "scan try sec 0 (obscured (current_game c), True, True) = (obs', try \<notin> set sec, won)"
      by (simp add: scan_buffer [OF le] obs'_def won_def)
    have big: "\<not> MAX_WORD_LENGTH < length sec"
      using fit by simp
    let ?g = "current_game c"
    let ?e = "errors ?g + 1"
    from r have alt:
      "c' = c\<lparr>current_game := ?g\<lparr>obscured := obs', status := game_won\<rparr>\<rparr> \<or>
       c' = c\<lparr>current_game := ?g\<lparr>obscured := obs'\<rparr>\<rparr> \<or>
       (MAX_ERROR < ?e \<and>
        c' = c\<lparr>current_game := ?g\<lparr>obscured := strncpy sec MAX_WORD_LENGTH,
                                     status := game_lost, errors := ?e\<rparr>\<rparr>) \<or>
       (\<not> MAX_ERROR < ?e \<and> c' = c\<lparr>current_game := ?g\<lparr>obscured := obs', errors := ?e\<rparr>\<rparr>)"
      by (simp add: calculate_results_def sec big sc Let_def split: if_splits)
    have lost: "?e = MAX_ERROR + 1" if "MAX_ERROR < ?e"
      using True that by (rule word_step_lost)
    have pad: "take (length sec) (strncpy sec MAX_WORD_LENGTH) = sec"
      using fit by (simp add: strncpy_def)
    have padlen: "length (strncpy sec MAX_WORD_LENGTH) = MAX_WORD_LENGTH"
      using fit by (simp add: strncpy_def)
    from alt show ?thesis
    proof (elim disjE conjE)
      assume "c' = c\<lparr>current_game := ?g\<lparr>obscured := obs', status := game_won\<rparr>\<rparr>"
      then show ?thesis
        using sec mem fit len' True by (simp add: game_ok_def)
    next
      assume "c' = c\<lparr>current_game := ?g\<lparr>obscured := obs'\<rparr>\<rparr>"
      then show ?thesis
        using sec mem fit len' True by (simp add: game_ok_def)
    next
      assume "MAX_ERROR < ?e"
        and "c' = c\<lparr>current_game := ?g\<lparr>obscured := strncpy sec MAX_WORD_LENGTH,
                                     status := game_lost, errors := ?e\<rparr>\<rparr>"
      then show ?thesis
        using sec mem fit pad padlen lost by (simp add: game_ok_def)
    next
      assume small: "\<not> MAX_ERROR < ?e"
        and c': "c' = c\<lparr>current_game := ?g\<lparr>obscured := obs', errors := ?e\<rparr>\<rparr>"
      from small have "?e \<le> MAX_ERROR"
        by (rule word_step_open)
      then show ?thesis
        using sec mem fit len' by (simp add: c' game_ok_def)
    qed
  next
    case False
    with err have nine: "errors (current_game c) = MAX_ERROR + 1"
      and shown: "take (length sec) (obscured (current_game c)) = sec"
      by auto
    from clean mem have "CHR ''_'' \<notin> set sec"
      by (simp add: list_all_iff)
    with sec fit shown
    have "calculate_results c try = Inr (c\<lparr>current_game := (current_game c)\<lparr>status := game_won\<rparr>\<rparr>)"
      by (intro calculate_results_revealed) auto
    with r have "c' = c\<lparr>current_game := (current_game c)\<lparr>status := game_won\<rparr>\<rparr>"
      by simp
    then show ?thesis
      using sec mem fit buf nine shown by (simp add: game_ok_def)
  qed
  with ws show ?thesis
    by (simp add: session_ok_def)
qed

lemma server_ok_dispatch:
  assumes ok: "server_ok pool s"
    and clean: "list_all (\<lambda>w. CHR ''_'' \<notin> set w) pool"
    and d: "dispatch e s m = Served s' m' p"
  shows "server_ok pool s'"
proof -
  have sw: "srv_words s = pool"
    using ok by (simp add: server_ok_def)
  have "list_all (session_ok pool) (clients s')"
    using d
  proof (rule served_sessions)
    show "list_all (session_ok pool) (clients s)"
      using ok by (simp add: server_ok_def)
    show "session_ok pool \<lparr>clientno = sint (client_count s), words = srv_words s,
                   words_ended = (srv_words s = [] \<or> malloc_next_null e),
                   current_game = malloc_game e, gamecnt = 0\<rparr>"
      by (simp add: session_ok_def sw)
    show "session_ok pool c'"
      if "session_ok pool c" and "new_game (wordcnt s) (rand e) c = Inr c'" for c c'
      using that by (rule session_ok_new_game)
    show "session_ok pool c'"
      if "session_ok pool c" and "calculate_results c (tried_char m) = Inr c'" for c c'
      using that(1) clean that(2) by (rule session_ok_calculate_results)
  qed
  with sw wordcnt_dispatch [OF d] show ?thesis
    by (simp add: server_ok_def)
qed

lemma server_ok_reachable:
  assumes "reachable pool s" and "list_all (\<lambda>w. CHR ''_'' \<notin> set w) pool"
  shows "server_ok pool s"
  using assms
proof (induction rule: reachable.induct)
  case (reachable_init t)
  show ?case
    by (simp add: server_ok_def server_init_def)
next
  case (reachable_step s e m s' m' p)
  then show ?case
    using server_ok_dispatch by blast
qed

lemma dispatch_response:
  assumes d: "dispatch e s m = Served s' m' ret_sem"
  shows "\<exists>c\<in>set (clients s'). shm_clientno m' = clientno c \<and>
           shm_status m' = status (current_game c) \<and>
           shm_errors m' = errors (current_game c) \<and>
           shm_word m' = strncpy (cstr (obscured (current_game c))) MAX_WORD_LENGTH"
proof -
  from d obtain s1 i where r: "resolve e s m = Inr (s1, i)"
    by (rule dispatch_resolve)
  have i: "i < length (clients s1)"
    using r by (rule resolve_index)
  have nt: "\<not> terminate m"
    using d r by (auto simp: dispatch_leave_eq split: if_splits)
  have "\<exists>cur'. s' = s1\<lparr>clients := list_update (clients s1) i cur'\<rparr> \<and>
          m' = m\<lparr>shm_clientno := clientno cur',
                 shm_status := status (current_game cur'),
                 shm_errors := errors (current_game cur'),
                 shm_word := strncpy (cstr (obscured (current_game cur'))) MAX_WORD_LENGTH\<rparr>"
    using d r nt
    by (cases "shm_status m = game_new")
       (auto simp: dispatch_start_eq dispatch_guess_eq split: sum.splits)
  then obtain cur' where s': "s' = s1\<lparr>clients := list_update (clients s1) i cur'\<rparr>"
    and m': "m' = m\<lparr>shm_clientno := clientno cur',
                 shm_status := status (current_game cur'),
                 shm_errors := errors (current_game cur'),
                 shm_word := strncpy (cstr (obscured (current_game cur'))) MAX_WORD_LENGTH\<rparr>"
    by blast
  have "cur' \<in> set (clients s')"
    using i by (simp add: s' set_update_memI)
  then show ?thesis
    by (auto simp: m')
qed

lemma session_ok_bound:
  assumes "session_ok pool c" and "0 < gamecnt c"
  shows "errors (current_game c) \<le> MAX_ERROR + 1"
proof -
  from assms have "game_ok pool (current_game c)"
    by (simp add: session_ok_def)
  then have "errors (current_game c) \<le> MAX_ERROR \<or> errors (current_game c) = MAX_ERROR + 1"
    by (auto simp: game_ok_def split: option.splits)
  then show ?thesis
    by (rule word_bound)
qed

text \<open>
  C8, as the code has it. For a server whose pool has only words that fit the obscured
  buffer (at most 78 characters) and no word with the placeholder character: in every
  state it reaches, a session that has started a game has an error count of at most
  \<open>MAX_ERROR + 1\<close>; the errors field of every response is the count of a session of the
  new state, with the same bound once that session has started a game; and the passes in
  question are served, that is, a request without the terminate flag that can be given a
  session, and that asks for a new game or is a guess for a session that has started
  one, gets its response.
\<close>

theorem errors_bounded:
  assumes reach: "reachable pool s"
    and clean: "list_all (\<lambda>w. CHR ''_'' \<notin> set w) pool"
    and fit: "list_all fits pool"
  shows "list_all (\<lambda>c. 0 < gamecnt c \<longrightarrow> errors (current_game c) \<le> MAX_ERROR + 1) (clients s) \<and>
         (dispatch e s m = Served s' m' ret_sem \<longrightarrow>
            (\<exists>c\<in>set (clients s'). shm_clientno m' = clientno c \<and>
               shm_errors m' = errors (current_game c) \<and>
               (0 < gamecnt c \<longrightarrow> shm_errors m' \<le> MAX_ERROR + 1))) \<and>
         (\<not> terminate m \<longrightarrow> addressed s m \<longrightarrow> shm_status m = game_new \<or> started s m \<longrightarrow>
            (\<exists>s' m'. dispatch e s m = Served s' m' ret_sem))"
proof -
  have bound: "list_all (\<lambda>c. 0 < gamecnt c \<longrightarrow> errors (current_game c) \<le> MAX_ERROR + 1) (clients t)"
    if "server_ok pool t" for t
    using that by (auto simp: server_ok_def list_all_iff intro: session_ok_bound)
  have first: "list_all (\<lambda>c. 0 < gamecnt c \<longrightarrow> errors (current_game c) \<le> MAX_ERROR + 1) (clients s)"
    using server_ok_reachable [OF reach clean] by (rule bound)
  have second: "\<exists>c\<in>set (clients s'). shm_clientno m' = clientno c \<and>
               shm_errors m' = errors (current_game c) \<and>
               (0 < gamecnt c \<longrightarrow> shm_errors m' \<le> MAX_ERROR + 1)"
    if d: "dispatch e s m = Served s' m' ret_sem"
  proof -
    have "server_ok pool s'"
      using server_ok_reachable [OF reach clean] clean d by (rule server_ok_dispatch)
    then have b: "list_all (\<lambda>c. 0 < gamecnt c \<longrightarrow> errors (current_game c) \<le> MAX_ERROR + 1) (clients s')"
      by (rule bound)
    from dispatch_response [OF d] obtain c where c: "c \<in> set (clients s')"
      and no: "shm_clientno m' = clientno c"
      and er: "shm_errors m' = errors (current_game c)"
      by blast
    from b c have "0 < gamecnt c \<longrightarrow> errors (current_game c) \<le> MAX_ERROR + 1"
      by (simp add: list_all_iff)
    with c no er show ?thesis
      by auto
  qed
  have third: "\<exists>s' m'. dispatch e s m = Served s' m' ret_sem"
    if "\<not> terminate m" and "addressed s m" and "shm_status m = game_new \<or> started s m"
    using pass_outcome [OF reach that, of e] fit by blast
  from first second third show ?thesis
    by blast
qed

theorem errors_bounded_witness:
  "reachable [''CAT''] cat_server \<and>
   list_all (\<lambda>w. CHR ''_'' \<notin> set w) [''CAT''] \<and>
   list_all fits [''CAT''] \<and>
   list_all (\<lambda>c. 0 < gamecnt c \<and> errors (current_game c) \<le> MAX_ERROR + 1) (clients cat_server) \<and>
   \<not> terminate (shm_zero\<lparr>shm_status := game_open, tried_char := CHR ''Z''\<rparr>) \<and>
   addressed cat_server (shm_zero\<lparr>shm_status := game_open, tried_char := CHR ''Z''\<rparr>) \<and>
   started cat_server (shm_zero\<lparr>shm_status := game_open, tried_char := CHR ''Z''\<rparr>) \<and>
   dispatch env0 cat_server (shm_zero\<lparr>shm_status := game_open, tried_char := CHR ''Z''\<rparr>) =
     Served (cat_server\<lparr>clients := [cat_client ''___'' game_open 1]\<rparr>)
       (shm_zero\<lparr>shm_status := game_open, tried_char := CHR ''Z'', shm_errors := 1,
                 shm_word := strncpy ''___'' MAX_WORD_LENGTH\<rparr>)
       ret_sem \<and>
   shm_errors (shm_zero\<lparr>shm_status := game_open, tried_char := CHR ''Z'', shm_errors := 1,
                        shm_word := strncpy ''___'' MAX_WORD_LENGTH\<rparr>) \<le> MAX_ERROR + 1"
proof -
  let ?m = "shm_zero\<lparr>shm_status := game_open, tried_char := CHR ''Z''\<rparr>"
  let ?s' = "cat_server\<lparr>clients := [cat_client ''___'' game_open 1]\<rparr>"
  let ?m' = "shm_zero\<lparr>shm_status := game_open, tried_char := CHR ''Z'', shm_errors := 1,
                     shm_word := strncpy ''___'' MAX_WORD_LENGTH\<rparr>"
  have cl: "list_all (\<lambda>w. CHR ''_'' \<notin> set w) [''CAT'']"
    by simp
  have fit: "list_all fits [''CAT'']"
    by (simp add: fits_def MAX_WORD_LENGTH_def)
  have nt: "\<not> terminate ?m"
    by (simp add: shm_zero_def)
  have ad: "addressed cat_server ?m"
    by (simp add: addressed_def shm_zero_def cat_server_def cat_client_def)
  have st: "started cat_server ?m"
    by (simp add: started_def shm_zero_def cat_server_def cat_client_def)
  note inst = errors_bounded [OF reachable_cat_server cl fit, of env0 ?m ?s' ?m']
  have started: "list_all (\<lambda>c. 0 < gamecnt c) (clients cat_server)"
    by (simp add: cat_server_def cat_client_def)
  from inst have "list_all (\<lambda>c. 0 < gamecnt c \<longrightarrow> errors (current_game c) \<le> MAX_ERROR + 1)
                    (clients cat_server)"
    by (rule conjunct1)
  with started have a: "list_all (\<lambda>c. 0 < gamecnt c \<and> errors (current_game c) \<le> MAX_ERROR + 1)
                    (clients cat_server)"
    by (simp add: list_all_iff)
  from inst dispatch_wrong_guess
  have "\<exists>c\<in>set (clients ?s'). shm_clientno ?m' = clientno c \<and>
          shm_errors ?m' = errors (current_game c) \<and>
          (0 < gamecnt c \<longrightarrow> shm_errors ?m' \<le> MAX_ERROR + 1)"
    by (elim conjE) (erule mp)
  then have b: "shm_errors ?m' \<le> MAX_ERROR + 1"
    by (simp add: cat_client_def)
  from reachable_cat_server cl fit a nt ad st dispatch_wrong_guess b show ?thesis
    by (intro conjI)
qed

text \<open>As the specification states it, C8 fails: nine wrong letters on \<open>CAT\<close> leave the
  count 9 in the session and in the shared record, above \<open>MAX_ERROR\<close>.\<close>

theorem errors_bounded_counterexample:
  "outcome
     (play [(env0, Start), (env0, Letter (CHR ''Z'')), (env0, Letter (CHR ''Y'')),
            (env0, Letter (CHR ''X'')), (env0, Letter (CHR ''W'')), (env0, Letter (CHR ''V'')),
            (env0, Letter (CHR ''U'')), (env0, Letter (CHR ''S'')), (env0, Letter (CHR ''R'')),
            (env0, Letter (CHR ''Q''))]
        (server_init [''CAT''] True 1, shm_zero, client_vars_init))
     = Some ((game_lost, ''CAT'', 9), [9], 9) \<and>
   MAX_ERROR < 9"
  by (simp add: outcome_def eval_defs)

section \<open>The word loader\<close>

lemma read_lines_count:
  "read_lines f buf ptr ws n = Inr (ws', n') \<Longrightarrow> n' + length ws = n + length ws'"
proof (induction f buf ptr ws n rule: read_lines.induct)
  case (1 f buf ptr ws n)
  show ?case
  proof (cases "fgets buf MAXLINELEN f")
    case None
    with "1.prems" show ?thesis
      by (simp add: read_lines.simps)
  next
    case (Some a)
    obtain buf1 f' where a: "a = (buf1, f')"
      by (cases a)
    define buf2 where "buf2 = list_update buf1 (strcspn_nl buf1) NUL"
    show ?thesis
    proof (cases "buf2 ! 0 = NUL")
      case True
      with "1.prems" Some a have "read_lines f' buf2 ptr ws n = Inr (ws', n')"
        by (simp add: read_lines.simps [of f] buf2_def)
      with "1.IH"(1) [OF Some a [symmetric] buf2_def True] show ?thesis
        by simp
    next
      case False
      with "1.prems" Some a obtain buf3 ptr' where
        cf: "copy_filtered buf2 0 ptr = Inr (buf3, ptr')"
        and inb: "\<not> length buf3 \<le> ptr'"
        and rest: "read_lines f' (list_update buf3 ptr' NUL) ptr'
                     (ws @ [cstr (list_update buf3 ptr' NUL)]) (Suc n) = Inr (ws', n')"
        by (auto simp: read_lines.simps [of f] buf2_def Let_def split: sum.splits if_splits)
      from "1.IH"(2) [OF Some a [symmetric] buf2_def False cf refl inb refl rest]
      show ?thesis
        by simp
    qed
  qed
qed

lemma wordlist_read_count: "wordlist_read f buf = Inr (ws, n) \<Longrightarrow> n = length ws"
  using read_lines_count [of f buf 0 "[]" 0 ws n] by (simp add: wordlist_read_def)

text \<open>The count the loader returns is the length of its list, so the server enters its
  loop in a state \<open>server_init ws t (length ws)\<close>: an initial state of \<open>reachable\<close> when
  the words fit the obscured buffer.\<close>

lemma server_init_loaded:
  "wordlist_read f buf = Inr (ws, n) \<Longrightarrow> server_init ws t n = server_init ws t (length ws)"
  using wordlist_read_count [of f buf ws n] by simp

text \<open>The first line of a stream is folded as the specification asks: while \<open>ptr\<close>
  starts at the front of the buffer it never overtakes \<open>s\<close>.\<close>

lemma fgets_line_whole:
  "CHR 0x0A \<notin> set l \<Longrightarrow> length l < k \<Longrightarrow> fgets_line k (l @ CHR 0x0A # rest) = l @ [CHR 0x0A]"
proof (induction l arbitrary: k)
  case Nil
  then show ?case by (cases k) auto
next
  case (Cons x xs)
  then show ?case by (cases k) auto
qed

lemma takeWhile_stop:
  "\<forall>x\<in>set l. P x \<Longrightarrow> \<not> P y \<Longrightarrow> takeWhile P (l @ y # r) = l"
  by (induction l) auto

lemma toupper_not_NUL: "isalpha x \<or> x = CHR 0x20 \<Longrightarrow> toupper x \<noteq> NUL"
proof -
  assume k: "isalpha x \<or> x = CHR 0x20"
  show ?thesis
  proof (cases "97 \<le> (of_char x :: nat) \<and> (of_char x :: nat) \<le> 122")
    case True
    then have "(of_char (toupper x) :: nat) = (of_char x - 32) mod 256"
      by (simp add: toupper_def Let_def)
    with True have "(of_char (toupper x) :: nat) \<noteq> 0"
      by auto
    then show ?thesis
      by auto
  next
    case False
    then have "toupper x = x"
      by (auto simp: toupper_def Let_def)
    moreover have "x \<noteq> NUL"
      using k by (auto simp: isalpha_def Let_def)
    ultimately show ?thesis
      by simp
  qed
qed

lemma fold_line_Cons:
  "fold_line (x # xs) = (if isalpha x \<or> x = CHR 0x20 then toupper x # fold_line xs else fold_line xs)"
  by (simp add: fold_line_def)

lemma fold_line_Nil: "fold_line [] = []"
  by (simp add: fold_line_def)

lemma fold_line_no_NUL: "NUL \<notin> set (fold_line l)"
proof (induction l)
  case Nil
  show ?case
    by (simp add: fold_line_Nil)
next
  case (Cons x xs)
  show ?case
  proof (cases "isalpha x \<or> x = CHR 0x20")
    case True
    then have "toupper x \<noteq> NUL"
      by (rule toupper_not_NUL)
    with True Cons.IH show ?thesis
      by (auto simp: fold_line_Cons)
  next
    case False
    with Cons.IH show ?thesis
      by (simp add: fold_line_Cons)
  qed
qed

lemma length_fold_line: "length (fold_line l) \<le> length l"
  by (simp add: fold_line_def)

lemma copy_filtered_run:
  assumes "NUL \<notin> set todo" and "length out = ptr" and "length (out @ gap) = s"
  shows "\<exists>gap'. length gap' + length (fold_line todo) = length gap + length todo \<and>
           copy_filtered (out @ gap @ todo @ NUL # tail) s ptr =
             Inr (out @ fold_line todo @ gap' @ NUL # tail, ptr + length (fold_line todo))"
  using assms
proof (induction todo arbitrary: out gap s ptr)
  case Nil
  have "(out @ gap @ NUL # tail) ! s = NUL"
    using Nil.prems(3) by (metis append.assoc nth_append_length)
  moreover have "s < length (out @ gap @ NUL # tail)"
    using Nil.prems(3) by simp
  ultimately have "copy_filtered (out @ gap @ [] @ NUL # tail) s ptr = Inr (out @ gap @ NUL # tail, ptr)"
    by (simp add: copy_filtered.simps [of _ s ptr])
  then show ?case
    by (simp add: fold_line_def)
next
  case (Cons x xs)
  define B where "B = out @ gap @ (x # xs) @ NUL # tail"
  have x: "x \<noteq> NUL" and xs: "NUL \<notin> set xs"
    using Cons.prems(1) by auto
  have at: "B ! s = x"
    unfolding B_def using Cons.prems(3) by (metis append.assoc append_Cons nth_append_length)
  have s: "s < length B"
    unfolding B_def using Cons.prems(3) by simp
  show ?case
  proof (cases "isalpha x \<or> x = CHR 0x20")
    case False
    have step: "copy_filtered B s ptr = copy_filtered B (Suc s) ptr"
      using at s x False by (simp add: copy_filtered.simps [of B s ptr])
    have shape: "B = out @ (gap @ [x]) @ xs @ NUL # tail"
      by (simp add: B_def)
    have "length (out @ gap @ [x]) = Suc s"
      using Cons.prems(3) by simp
    from Cons.IH [OF xs Cons.prems(2) this] obtain gap' where
      g: "length gap' + length (fold_line xs) = length (gap @ [x]) + length xs"
      and r: "copy_filtered (out @ (gap @ [x]) @ xs @ NUL # tail) (Suc s) ptr =
             Inr (out @ fold_line xs @ gap' @ NUL # tail, ptr + length (fold_line xs))"
      by blast
    have "copy_filtered B s ptr = copy_filtered B (Suc s) ptr"
      by (rule step)
    also have "\<dots> = copy_filtered (out @ (gap @ [x]) @ xs @ NUL # tail) (Suc s) ptr"
      by (simp only: shape)
    also have "\<dots> = Inr (out @ fold_line xs @ gap' @ NUL # tail, ptr + length (fold_line xs))"
      by (rule r)
    also have "fold_line xs = fold_line (x # xs)"
      using False by (simp add: fold_line_Cons)
    finally have "copy_filtered B s ptr =
            Inr (out @ fold_line (x # xs) @ gap' @ NUL # tail, ptr + length (fold_line (x # xs)))" .
    moreover have "length gap' + length (fold_line (x # xs)) = length gap + length (x # xs)"
      using g False by (simp add: fold_line_Cons)
    ultimately show ?thesis
      unfolding B_def by blast
  next
    case True
    obtain g gap2 where gx: "gap @ [x] = g # gap2"
      by (cases "gap @ [x]") auto
    then have len2: "length gap2 = length gap"
      by (metis length_append_singleton length_Cons nat.inject)
    have shape: "B = out @ g # gap2 @ xs @ NUL # tail"
      unfolding B_def using gx by (metis append.assoc append_Cons append_Nil)
    have p: "ptr < length B"
      using Cons.prems(2) by (simp add: shape)
    have upd: "B[ptr := toupper x] = (out @ [toupper x]) @ gap2 @ xs @ NUL # tail"
      using Cons.prems(2) by (simp add: shape list_update_append)
    have step: "copy_filtered B s ptr =
                  copy_filtered ((out @ [toupper x]) @ gap2 @ xs @ NUL # tail) (Suc s) (Suc ptr)"
      using at s x True p by (simp add: copy_filtered.simps [of B s ptr] upd)
    have l1: "length (out @ [toupper x]) = Suc ptr"
      using Cons.prems(2) by simp
    have l2: "length ((out @ [toupper x]) @ gap2) = Suc s"
      using Cons.prems(2,3) len2 by simp
    from Cons.IH [OF xs l1 l2] obtain gap' where
      g: "length gap' + length (fold_line xs) = length gap2 + length xs"
      and r: "copy_filtered ((out @ [toupper x]) @ gap2 @ xs @ NUL # tail) (Suc s) (Suc ptr) =
             Inr ((out @ [toupper x]) @ fold_line xs @ gap' @ NUL # tail,
                  Suc ptr + length (fold_line xs))"
      by blast
    have "copy_filtered B s ptr =
            copy_filtered ((out @ [toupper x]) @ gap2 @ xs @ NUL # tail) (Suc s) (Suc ptr)"
      by (rule step)
    also have "\<dots> = Inr ((out @ [toupper x]) @ fold_line xs @ gap' @ NUL # tail,
                          Suc ptr + length (fold_line xs))"
      by (rule r)
    also have "(out @ [toupper x]) @ fold_line xs @ gap' @ NUL # tail =
                 out @ fold_line (x # xs) @ gap' @ NUL # tail"
      using True by (simp add: fold_line_Cons)
    also have "Suc ptr + length (fold_line xs) = ptr + length (fold_line (x # xs))"
      using True by (simp add: fold_line_Cons)
    finally have "copy_filtered B s ptr =
            Inr (out @ fold_line (x # xs) @ gap' @ NUL # tail, ptr + length (fold_line (x # xs)))" .
    moreover have "length gap' + length (fold_line (x # xs)) = length gap + length (x # xs)"
      using g True len2 by (simp add: fold_line_Cons)
    ultimately show ?thesis
      unfolding B_def by blast
  qed
qed

lemma wordlist_read_first_line:
  assumes buf: "length buf = MAXLINELEN"
    and short: "length l + 1 < MAXLINELEN"
    and ne: "l \<noteq> []"
    and nul: "NUL \<notin> set l"
    and nl: "CHR 0x0A \<notin> set l"
  shows "wordlist_read (l @ [CHR 0x0A]) buf = Inr ([fold_line l], 1)"
proof -
  let ?tail = "NUL # drop (length l + 2) buf"
  have line: "fgets_line (MAXLINELEN - 1) (l @ [CHR 0x0A]) = l @ [CHR 0x0A]"
    using nl short by (intro fgets_line_whole) auto
  have fg: "fgets buf MAXLINELEN (l @ [CHR 0x0A]) = Some (l @ CHR 0x0A # ?tail, [])"
    unfolding fgets_def Let_def line by simp
  have keep: "\<forall>x\<in>set l. x \<noteq> NUL \<and> x \<noteq> CHR 0x0A"
    using nul nl by auto
  have "takeWhile (\<lambda>x. x \<noteq> NUL \<and> x \<noteq> CHR 0x0A) (l @ CHR 0x0A # ?tail) = l"
    by (rule takeWhile_stop [OF keep]) simp
  then have sp: "strcspn_nl (l @ CHR 0x0A # ?tail) = length l"
    by (simp only: strcspn_nl_def)
  have buf2: "list_update (l @ CHR 0x0A # ?tail) (length l) NUL = l @ NUL # ?tail"
    by simp
  have first: "(l @ NUL # ?tail) ! 0 \<noteq> NUL"
    using ne nul by (cases l) auto
  from copy_filtered_run [of l "[]" 0 "[]" 0 ?tail] nul obtain gap' where
    glen: "length gap' + length (fold_line l) = length l"
    and cf: "copy_filtered (l @ NUL # ?tail) 0 0 =
               Inr (fold_line l @ gap' @ NUL # ?tail, length (fold_line l))"
    by auto
  let ?buf3 = "fold_line l @ gap' @ NUL # ?tail"
  have inb: "\<not> length ?buf3 \<le> length (fold_line l)"
    by simp
  have "\<exists>rest. list_update ?buf3 (length (fold_line l)) NUL = fold_line l @ NUL # rest"
    by (cases gap') (auto simp: list_update_append)
  then obtain rest where buf4: "list_update ?buf3 (length (fold_line l)) NUL = fold_line l @ NUL # rest"
    by blast
  have "\<forall>x\<in>set (fold_line l). x \<noteq> NUL"
    using fold_line_no_NUL [of l] by auto
  then have "takeWhile (\<lambda>x. x \<noteq> NUL) (fold_line l @ NUL # rest) = fold_line l"
    by (rule takeWhile_stop) simp
  then have word: "cstr (fold_line l @ NUL # rest) = fold_line l"
    by (simp only: cstr_def)
  have fin: "read_lines [] (fold_line l @ NUL # rest) (length (fold_line l)) [fold_line l] (Suc 0)
                = Inr ([fold_line l], 1)"
    by (simp add: read_lines.simps [of "[]"] fgets_def)
  have "wordlist_read (l @ [CHR 0x0A]) buf = read_lines (l @ [CHR 0x0A]) buf 0 [] 0"
    by (simp only: wordlist_read_def)
  also have "\<dots> =
     (case fgets buf MAXLINELEN (l @ [CHR 0x0A]) of
        None \<Rightarrow> Inr ([], 0)
      | Some (buf1, f') \<Rightarrow>
          let buf2 = list_update buf1 (strcspn_nl buf1) NUL in
          if buf2 ! 0 = NUL then read_lines f' buf2 0 [] 0
          else
            (case copy_filtered buf2 0 0 of
               Inl x \<Rightarrow> Inl x
             | Inr (buf3, ptr') \<Rightarrow>
                 if length buf3 \<le> ptr' then Inl BufferOverflow
                 else
                   let buf4 = list_update buf3 ptr' NUL in
                   read_lines f' buf4 ptr' ([] @ [cstr buf4]) (Suc 0)))"
    by (rule read_lines.simps)
  also have "\<dots> = read_lines [] (fold_line l @ NUL # rest) (length (fold_line l)) [fold_line l] (Suc 0)"
    using first inb
    by (simp only: fg option.case prod.case Let_def sp buf2 if_False cf sum.case buf4 word
                   append_Nil)
  also have "\<dots> = Inr ([fold_line l], 1)"
    by (rule fin)
  finally show ?thesis .
qed

text \<open>The second line is not.\<close>

lemma toupper_hello:
  "toupper (CHR ''h'') = CHR ''H''" "toupper (CHR ''e'') = CHR ''E''"
  "toupper (CHR ''l'') = CHR ''L''" "toupper (CHR ''o'') = CHR ''O''"
  by code_simp+

lemma fgets_line_numeral:
  "fgets_line (numeral k) (x # xs) =
     (if x = CHR 0x0A then [x] else x # fgets_line (pred_numeral k) xs)"
  by (simp add: numeral_eq_Suc)

lemma fold_line_hello_cat: "map fold_line [''hello'', ''cat''] = [''HELLO'', ''CAT'']"
  by code_simp

text \<open>
  C7 fails on the second line of a stream. \<open>ptr\<close> is not set back to the start of the
  buffer: for the lines \<open>hello\<close> and \<open>cat\<close>, whatever the line buffer held before, the
  second word is stored as read, \<open>cat\<close>, where the folded line is \<open>CAT\<close>.
\<close>

theorem wordlist_read_second_line:
  assumes "length buf = MAXLINELEN"
  shows "wordlist_read (''hello'' @ [CHR 0x0A] @ ''cat'' @ [CHR 0x0A]) buf
           = Inr ([''HELLO'', ''cat''], 2) \<and>
         map fold_line [''hello'', ''cat''] = [''HELLO'', ''CAT'']"
proof
  show "wordlist_read (''hello'' @ [CHR 0x0A] @ ''cat'' @ [CHR 0x0A]) buf
          = Inr ([''HELLO'', ''cat''], 2)"
    using assms
    by (simp add: wordlist_read_def read_lines.simps copy_filtered.simps fgets_def
                  MAXLINELEN_def strcspn_nl_def cstr_def isalpha_def toupper_hello
                  fgets_line_numeral Let_def)
  show "map fold_line [''hello'', ''cat''] = [''HELLO'', ''CAT'']"
    by (rule fold_line_hello_cat)
qed

theorem wordlist_read_second_line_witness:
  "length (replicate MAXLINELEN NUL) = MAXLINELEN \<and>
   wordlist_read (''hello'' @ [CHR 0x0A] @ ''cat'' @ [CHR 0x0A]) (replicate MAXLINELEN NUL)
     = Inr ([''HELLO'', ''cat''], 2) \<and>
   map fold_line [''hello'', ''cat''] = [''HELLO'', ''CAT'']"
proof -
  have h: "length (replicate MAXLINELEN NUL) = MAXLINELEN"
    by simp
  from wordlist_read_second_line [OF h] h show ?thesis
    by simp
qed

end
